theory Spec2Isabelle
  imports Complex_Main "HOL-Library.Multiset"
begin

unbundle bit_operations_syntax

section \<open>Outcomes of a Python call\<close>

text \<open>
  A call of one of the repository's entry points ends in one of three ways: an exception
  propagates to the caller, a dictionary with an \<open>'error'\<close> key is returned, or a
  result dictionary is returned.
\<close>

datatype exn = ZeroDivisionError | ValueError | TypeError | IndexError | CircuitError | LibraryError

datatype 'a outcome = Raises exn | ErrorDict string | Returns 'a

section \<open>Classical baseline: linear extremum scan (src/classical/min\_max.py)\<close>

record 'a cmm_result =
  cmm_data :: "'a list"
  cmm_find_min :: bool
  cmm_value :: 'a
  cmm_index :: nat
  cmm_comparisons :: nat

text \<open>
  The loop state is \<open>(target, target_idx, comparisons)\<close>; one step is the body of
  \<open>for i in range(1, len(data))\<close> in the minimum branch, respectively the maximum branch.
\<close>

fun min_step :: "'a::linorder list \<Rightarrow> nat \<Rightarrow> 'a \<times> nat \<times> nat \<Rightarrow> 'a \<times> nat \<times> nat" where
  "min_step data i (target, target_idx, comparisons) =
     (if data ! i < target then (data ! i, i, comparisons + 1)
      else (target, target_idx, comparisons + 1))"

fun max_step :: "'a::linorder list \<Rightarrow> nat \<Rightarrow> 'a \<times> nat \<times> nat \<Rightarrow> 'a \<times> nat \<times> nat" where
  "max_step data i (target, target_idx, comparisons) =
     (if data ! i > target then (data ! i, i, comparisons + 1)
      else (target, target_idx, comparisons + 1))"

definition classical_min_max :: "'a::linorder list \<Rightarrow> bool \<Rightarrow> 'a cmm_result outcome" where
  "classical_min_max data find_min =
     (if data = [] then ErrorDict ''Empty data list''
      else
        let (target, target_idx, comparisons) =
              (if find_min
               then fold (min_step data) [1..<length data] (data ! 0, 0, 0)
               else fold (max_step data) [1..<length data] (data ! 0, 0, 0))
        in Returns \<lparr>cmm_data = data, cmm_find_min = find_min, cmm_value = target,
                     cmm_index = target_idx, cmm_comparisons = comparisons\<rparr>)"

text \<open>The first position at which \<open>v\<close> occurs in \<open>xs\<close> is \<open>i\<close>.\<close>

definition first_index_of :: "'a list \<Rightarrow> 'a \<Rightarrow> nat \<Rightarrow> bool" where
  "first_index_of xs v i \<longleftrightarrow> i < length xs \<and> xs ! i = v \<and> (\<forall>j<i. xs ! j \<noteq> v)"

section \<open>Factorization (src/backend/quantum/shor.py)\<close>

text \<open>
  Python's \<open>int\<close> is unbounded: \<^typ>\<open>int\<close>. \<open>%\<close> and \<open>//\<close> round towards minus
  infinity, as \<open>mod\<close> and \<open>div\<close> do on \<^typ>\<open>int\<close>; \<open>math.gcd\<close> is the non-negative
  greatest common divisor, as \<^const>\<open>gcd\<close> is. The period \<open>r\<close> is a counter that starts
  at 1 and is only incremented: \<^typ>\<open>nat\<close>.
\<close>

text \<open>
  \<open>_find_coprime\<close>: the first \<open>a\<close> in \<open>range(2, N)\<close> with \<open>gcd(a, N) == 1\<close>, else 2.
\<close>

definition find_coprime :: "int \<Rightarrow> int" where
  "find_coprime N = (case find (\<lambda>a. gcd a N = 1) [2..N - 1] of Some a \<Rightarrow> a | None \<Rightarrow> 2)"

text \<open>
  The \<open>while current != 1\<close> loop of \<open>_classical_period_finding\<close>. The last argument
  counts the executions of the loop body; it is not a variable of the source. The result
  is the returned value (\<open>None\<close> for Python's \<open>None\<close>) and that count.
\<close>

function period_loop :: "int \<Rightarrow> int \<Rightarrow> int \<Rightarrow> nat \<Rightarrow> nat \<Rightarrow> nat option \<times> nat" where
  "period_loop a N current r iters =
     (if current \<noteq> 1 then
        (let current' = (current * a) mod N; r' = r + 1
         in if int r' > N then (None, iters + 1)
            else period_loop a N current' r' (iters + 1))
      else (Some r, iters))"
  by pat_completeness auto
termination
  by (relation "measure (\<lambda>(a, N, current, r, iters). nat (N - int r))") auto

declare period_loop.simps [simp del]

text \<open>
  \<open>_classical_period_finding\<close>, with the loop count beside the result. \<open>a % N\<close>
  raises \<open>ZeroDivisionError\<close> when \<open>N\<close> is 0.
\<close>

definition classical_period_finding_counted :: "int \<Rightarrow> int \<Rightarrow> exn + (nat option \<times> nat)" where
  "classical_period_finding_counted a N =
     (if gcd a N \<noteq> 1 then Inr (None, 0)
      else if N = 0 then Inl ZeroDivisionError
      else Inr (period_loop a N (a mod N) 1 0))"

definition classical_period_finding :: "int \<Rightarrow> int \<Rightarrow> exn + nat option" where
  "classical_period_finding a N = map_sum id fst (classical_period_finding_counted a N)"

text \<open>\<open>_quantum_period_finding\<close> delegates to the classical loop.\<close>

definition quantum_period_finding :: "int \<Rightarrow> int \<Rightarrow> exn + nat option" where
  "quantum_period_finding a N = classical_period_finding a N"

text \<open>
  The dictionaries \<open>ShorAlgorithm.run\<close> returns, one constructor per \<open>return\<close>:
  \<^item> \<open>Factors fs m\<close> is \<open>{'factors': fs, 'method': m}\<close> (\<open>m\<close> is \<open>'trivial'\<close> or \<open>'gcd'\<close>);
  \<^item> \<open>TooLarge\<close> is \<open>{'factors': None, 'error': 'N too large for simulation'}\<close>;
  \<^item> \<open>NotSuitable r\<close> is \<open>{'factors': None, 'period': r, 'error': 'Period not suitable'}\<close>;
  \<^item> \<open>QuantumFactors fs r a\<close> is
    \<open>{'factors': fs, 'period': r, 'base': a, 'method': 'quantum'}\<close>;
  \<^item> \<open>FactorizationFailed r\<close> is
    \<open>{'factors': None, 'period': r, 'error': 'Factorization failed'}\<close>.
\<close>

datatype shor_result =
    Factors "int list" string
  | TooLarge
  | NotSuitable "nat option"
  | QuantumFactors "int list" nat int
  | FactorizationFailed nat

text \<open>
  \<open>ShorAlgorithm.run\<close>, with the period-finding method it calls
  (\<open>self._quantum_period_finding\<close>) as the first argument.
\<close>

definition shor_run_with ::
  "(int \<Rightarrow> int \<Rightarrow> exn + nat option) \<Rightarrow> int \<Rightarrow> int option \<Rightarrow> exn + shor_result" where
  "shor_run_with period_finding N a_arg =
     (if N mod 2 = 0 then Inr (Factors [2, N div 2] ''trivial'')
      else if N > 21 then Inr TooLarge
      else
        let a = (case a_arg of None \<Rightarrow> find_coprime N | Some a \<Rightarrow> a);
            g = gcd a N
        in if g \<noteq> 1 then Inr (Factors [g, N div g] ''gcd'')
           else
             (case period_finding a N of
                Inl e \<Rightarrow> Inl e
              | Inr None \<Rightarrow> Inr (NotSuitable None)
              | Inr (Some r) \<Rightarrow>
                  if r mod 2 \<noteq> 0 then Inr (NotSuitable (Some r))
                  else
                    let factor1 = gcd (a ^ (r div 2) - 1) N;
                        factor2 = gcd (a ^ (r div 2) + 1) N
                    in if factor1 \<noteq> 1 \<and> factor1 \<noteq> N
                         then Inr (QuantumFactors [factor1, N div factor1] r a)
                       else if factor2 \<noteq> 1 \<and> factor2 \<noteq> N
                         then Inr (QuantumFactors [factor2, N div factor2] r a)
                       else Inr (FactorizationFailed r)))"

definition shor_run :: "int \<Rightarrow> int option \<Rightarrow> exn + shor_result" where
  "shor_run N a_arg = shor_run_with quantum_period_finding N a_arg"

section \<open>Classical baseline: worst-case query simulator (src/classical/deutsch\_jozsa.py)\<close>

text \<open>
  The pseudo-random source is an explicit argument: \<open>rng_choice\<close> is \<open>random.choice\<close>
  and \<open>rng_shuffle\<close> is the list \<open>random.shuffle\<close> leaves behind. A source is well
  formed when \<open>choice\<close> picks an element of its non-empty argument and \<open>shuffle\<close> permutes.
\<close>

record rng =
  rng_choice :: "int list \<Rightarrow> int"
  rng_shuffle :: "int list \<Rightarrow> int list"

definition rng_ok :: "rng \<Rightarrow> bool" where
  "rng_ok g \<longleftrightarrow> (\<forall>xs. xs \<noteq> [] \<longrightarrow> rng_choice g xs \<in> set xs)
                \<and> (\<forall>xs. mset (rng_shuffle g xs) = mset xs)"

record cdj_result =
  cdj_n_qubits :: int
  cdj_actual_type :: string
  cdj_detected_type :: string
  cdj_queries :: int
  cdj_correct :: bool

text \<open>\<open>queries_needed = (2 ** n_qubits // 2) + 1\<close>, for \<open>n_qubits \<ge> 0\<close>.\<close>

definition queries_needed :: "int \<Rightarrow> int" where
  "queries_needed n_qubits = (2 ^ nat n_qubits) div 2 + 1"

text \<open>The simulated query outputs of either branch.\<close>

definition simulated_outputs :: "rng \<Rightarrow> int \<Rightarrow> string \<Rightarrow> int list" where
  "simulated_outputs g n_qubits function_type =
     (let q = queries_needed n_qubits in
      if function_type = ''constant''
      then (let output = rng_choice g [0, 1] in replicate (nat q) output)
      else rng_shuffle g (replicate (nat (q div 2)) 0 @ replicate (nat (q - q div 2)) 1))"

text \<open>
  For a negative \<open>n_qubits\<close> the power \<open>2 ** n_qubits\<close> is a float, and repeating a list a
  float number of times raises \<open>TypeError\<close>.
\<close>

definition classical_deutsch_jozsa :: "rng \<Rightarrow> int \<Rightarrow> string \<Rightarrow> exn + cdj_result" where
  "classical_deutsch_jozsa g n_qubits function_type =
     (if n_qubits < 0 then Inl TypeError
      else
        let outputs = simulated_outputs g n_qubits function_type;
            detected_type = (if card (set outputs) = 1 then ''constant'' else ''balanced'')
        in Inr \<lparr>cdj_n_qubits = n_qubits, cdj_actual_type = function_type,
                 cdj_detected_type = detected_type,
                 cdj_queries = queries_needed n_qubits,
                 cdj_correct = (detected_type = function_type)\<rparr>)"

section \<open>The circuit library and the simulator backend (Qiskit, external)\<close>

text \<open>
  The quantum entry points build a circuit through Qiskit and execute it on the Aer
  simulator. Neither is code of this repository. A circuit is modelled as the record of
  the calls the repository makes: the sizes of its registers and the gates appended, with
  the qubit indices the Python expressions evaluate to. A call on a single qubit is
  recorded with the index given to the register (\<open>qr[i]\<close>); a call on a whole register
  or on a range (\<open>qc.h(qr)\<close>, \<open>qc.h(range(n))\<close>, \<open>qc.measure(qr, cr)\<close>) is recorded with the
  list of the indices it covers, which may be empty.
\<close>

datatype gate =
    H int
  | X int
  | Z int
  | CZ int int
  | CX int int
  | MCX "int list" int
  | CP real int int
  | HAll "int list"
  | XAll "int list"
  | InverseQFT "int list"
  | MeasureAll "int list" "int list"

record circuit =
  qubits :: int
  clbits :: int
  gates :: "gate list"

text \<open>
  A measurement histogram (\<open>result.get_counts()\<close>) is a dictionary from bitstring to
  count, kept in iteration order; its keys are distinct.
\<close>

type_synonym counts = "(string \<times> nat) list"

text \<open>
  The backend is an argument of every entry point: given the circuit and the number of
  shots it yields the histogram, or an exception. Every exception of the library, raised
  while the circuit is built or while it is executed, is an \<open>Inl\<close> of the backend.
\<close>

type_synonym backend = "circuit \<Rightarrow> nat \<Rightarrow> exn + counts"

text \<open>
  \<open>int(bitstring, 2)\<close> on a key of the histogram. Keys are non-empty strings of the
  characters 0 and 1; on the empty string Python raises \<open>ValueError\<close>. (Python accepts a
  few other spellings, such as a sign or blanks, that no histogram key has; they raise
  here.)
\<close>

definition bitstring :: "string \<Rightarrow> bool" where
  "bitstring s \<longleftrightarrow> s \<noteq> [] \<and> list_all (\<lambda>c. c = CHR ''0'' \<or> c = CHR ''1'') s"

definition int_base2 :: "string \<Rightarrow> exn + int" where
  "int_base2 s =
     (if bitstring s
      then Inr (foldl (\<lambda>acc c. 2 * acc + (if c = CHR ''1'' then 1 else 0)) 0 s)
      else Inl ValueError)"

text \<open>
  \<open>max(counts, key=counts.get)\<close>: the first key, in iteration order, whose count is
  maximal; \<open>ValueError\<close> on an empty dictionary.
\<close>

fun max_key_loop :: "string \<times> nat \<Rightarrow> counts \<Rightarrow> string \<times> nat" where
  "max_key_loop best [] = best"
| "max_key_loop best ((k, c) # rest) =
     (if c > snd best then max_key_loop (k, c) rest else max_key_loop best rest)"

fun max_count_key :: "counts \<Rightarrow> exn + (string \<times> nat)" where
  "max_count_key [] = Inl ValueError"
| "max_count_key (kc # rest) = Inr (max_key_loop kc rest)"

text \<open>\<open>counts.get(key, 0)\<close>.\<close>

definition counts_get :: "counts \<Rightarrow> string \<Rightarrow> nat" where
  "counts_get cnts key = (case map_of cnts key of Some c \<Rightarrow> c | None \<Rightarrow> 0)"

text \<open>
  \<open>format(v, f'0{width}b')\<close>: the binary digits of \<open>|v|\<close>, zero-filled on the left to
  the width, the sign of a negative value first and counted in the width.
\<close>

fun bin_digits :: "nat \<Rightarrow> string" where
  "bin_digits n =
     (if n < 2 then [if n = 0 then CHR ''0'' else CHR ''1'']
      else bin_digits (n div 2) @ [if n mod 2 = 0 then CHR ''0'' else CHR ''1''])"

declare bin_digits.simps [simp del]

definition zero_fill :: "nat \<Rightarrow> string \<Rightarrow> string" where
  "zero_fill w s = replicate (w - length s) CHR ''0'' @ s"

definition format_binary :: "int \<Rightarrow> int \<Rightarrow> string" where
  "format_binary v width =
     (if v < 0 then CHR ''-'' # zero_fill (nat width - 1) (bin_digits (nat (- v)))
      else zero_fill (nat width) (bin_digits (nat v)))"

text \<open>
  \<open>int(math.log2(x))\<close> and \<open>math.ceil(math.log2(x))\<close> on a positive integer. The first is
  only applied to powers of two, where the floating-point logarithm is exact. The second
  is applied to a list length; where the floating-point logarithm of a length beyond
  \<open>2^47\<close> could round to the exponent below, both values exceed the qubit limit and the
  caller returns the same error.
\<close>

fun floor_log2 :: "nat \<Rightarrow> nat" where
  "floor_log2 n = (if n < 2 then 0 else Suc (floor_log2 (n div 2)))"

declare floor_log2.simps [simp del]

definition ceil_log2 :: "nat \<Rightarrow> nat" where
  "ceil_log2 n = (if n \<le> 1 then 0 else Suc (floor_log2 (n - 1)))"

text \<open>
  The multi-controlled Z of the oracles and the diffusion operators: the
  \<open>if n_qubits == 1 ... elif n_qubits == 2 ... else\<close> block that both classes repeat.
\<close>

definition multi_controlled_z :: "int \<Rightarrow> gate list" where
  "multi_controlled_z n_qubits =
     (if n_qubits = 1 then [Z 0]
      else if n_qubits = 2 then [CZ 0 1]
      else [H (n_qubits - 1), MCX [0..n_qubits - 2] (n_qubits - 1), H (n_qubits - 1)])"

text \<open>
  The X gates of \<open>for i, bit in enumerate(reversed(binary)): if bit == '0': qc.x(qr[i])\<close>.
\<close>

definition x_on_zero_bits :: "string \<Rightarrow> gate list" where
  "x_on_zero_bits binary =
     map (\<lambda>(i, bit). X (int i)) (filter (\<lambda>(i, bit). bit = CHR ''0'') (enumerate 0 (rev binary)))"

text \<open>
  The optimal number of iterations,
  \<open>int(math.floor(math.pi / 4 * math.sqrt(space / marked)))\<close>. The floating-point
  operations are read as the real ones.
\<close>

definition optimal_iterations :: "int \<Rightarrow> nat \<Rightarrow> int" where
  "optimal_iterations space marked = \<lfloor>pi / 4 * sqrt (real_of_int space / real marked)\<rfloor>"

section \<open>Unstructured search (src/quantum/grover.py)\<close>

definition grover_oracle :: "int list \<Rightarrow> int \<Rightarrow> gate list" where
  "grover_oracle marked_items n_qubits =
     concat (map (\<lambda>marked.
        let binary = format_binary marked n_qubits
        in x_on_zero_bits binary @ multi_controlled_z n_qubits @ x_on_zero_bits binary)
      marked_items)"

definition grover_diffusion :: "int \<Rightarrow> gate list" where
  "grover_diffusion n_qubits =
     [HAll [0..n_qubits - 1], XAll [0..n_qubits - 1]] @ multi_controlled_z n_qubits
     @ [XAll [0..n_qubits - 1], HAll [0..n_qubits - 1]]"

definition grover_circuit :: "int list \<Rightarrow> int \<Rightarrow> int \<Rightarrow> circuit" where
  "grover_circuit marked_items n_qubits n_iterations =
     \<lparr>qubits = n_qubits, clbits = n_qubits,
      gates = [HAll [0..n_qubits - 1]]
        @ concat (replicate (nat n_iterations)
            (grover_oracle marked_items n_qubits @ grover_diffusion n_qubits))
        @ [MeasureAll [0..n_qubits - 1] [0..n_qubits - 1]]\<rparr>"

text \<open>
  The loop over \<open>counts.items()\<close>; the state is \<open>(found_items, success_count)\<close>.
\<close>

fun grover_analyze :: "int list \<Rightarrow> counts \<Rightarrow> int list \<times> nat \<Rightarrow> exn + (int list \<times> nat)" where
  "grover_analyze marked_items [] acc = Inr acc"
| "grover_analyze marked_items ((bits, cnt) # rest) (found_items, success_count) =
     (case int_base2 bits of
        Inl e \<Rightarrow> Inl e
      | Inr v \<Rightarrow>
          if v \<in> set marked_items
          then grover_analyze marked_items rest (found_items @ [v], success_count + cnt)
          else grover_analyze marked_items rest (found_items, success_count))"

text \<open>
  The result dictionary. \<open>found_items\<close> is \<open>list(set(found_items))\<close>, a list without
  duplicates in no specified order: a set.
\<close>

record grover_result =
  gr_marked_items :: "int list"
  gr_found_items :: "int set"
  gr_success_rate :: real
  gr_iterations :: int
  gr_measurements :: counts
  gr_circuit :: circuit

definition grover_run :: "backend \<Rightarrow> int list \<Rightarrow> int \<Rightarrow> grover_result outcome" where
  "grover_run be marked_items search_space_size =
     (if search_space_size = 0 \<or> \<not> (search_space_size AND (search_space_size - 1) = 0)
      then ErrorDict ''Search space must be a power of 2''
      else
        let n_qubits = int (floor_log2 (nat search_space_size)) in
        if n_qubits > 10 then ErrorDict ''Search space too large for simulation''
        else if length marked_items = 0 then Raises ZeroDivisionError
        else
          let n_iterations = optimal_iterations search_space_size (length marked_items);
              qc = grover_circuit marked_items n_qubits n_iterations
          in case be qc 1000 of
               Inl e \<Rightarrow> Raises e
             | Inr cnts \<Rightarrow>
                 (case grover_analyze marked_items cnts ([], 0) of
                    Inl e \<Rightarrow> Raises e
                  | Inr (found_items, success_count) \<Rightarrow>
                      Returns \<lparr>gr_marked_items = marked_items,
                               gr_found_items = set found_items,
                               gr_success_rate = real success_count / 1000,
                               gr_iterations = n_iterations,
                               gr_measurements = cnts,
                               gr_circuit = qc\<rparr>))"

section \<open>Function-type determination (src/quantum/deutsch\_jozsa.py)\<close>

text \<open>
  \<open>_oracle\<close>. The first argument is the outcome of \<open>random.random() < 0.5\<close>, drawn only
  in the constant case. Any other function type raises \<open>ValueError\<close>.
\<close>

definition dj_oracle :: "bool \<Rightarrow> int \<Rightarrow> string \<Rightarrow> exn + gate list" where
  "dj_oracle coin n_qubits function_type =
     (if function_type = ''constant'' then Inr (if coin then [X n_qubits] else [])
      else if function_type = ''balanced'' then Inr (map (\<lambda>i. CX i n_qubits) [0..n_qubits - 1])
      else Inl ValueError)"

definition dj_circuit :: "gate list \<Rightarrow> int \<Rightarrow> circuit" where
  "dj_circuit oracle_gates n_qubits =
     \<lparr>qubits = n_qubits + 1, clbits = n_qubits,
      gates = [X n_qubits, HAll [0..n_qubits]] @ oracle_gates
        @ [HAll [0..n_qubits - 1], MeasureAll [0..n_qubits - 1] [0..n_qubits - 1]]\<rparr>"

record dj_result =
  dj_n_qubits :: int
  dj_actual_type :: string
  dj_detected_type :: string
  dj_correct :: bool
  dj_measurements :: counts
  dj_circuit_of :: circuit
  dj_queries :: int

text \<open>
  \<open>DeutschJozsaAlgorithm.run\<close>. The test
  \<open>all_zeros in counts and counts[all_zeros] > 900\<close> is on the 1024 shots of the run.
  (Where the library rejects the registers of a negative \<open>n_qubits\<close> it raises before the
  oracle is reached; for such a call with an unknown function type the exception shown
  here is the oracle's.)
\<close>

definition dj_run :: "backend \<Rightarrow> bool \<Rightarrow> int \<Rightarrow> string \<Rightarrow> dj_result outcome" where
  "dj_run be coin n_qubits function_type =
     (if n_qubits > 10 then ErrorDict ''Too many qubits for simulation''
      else
        case dj_oracle coin n_qubits function_type of
          Inl e \<Rightarrow> Raises e
        | Inr oracle_gates \<Rightarrow>
            let qc = dj_circuit oracle_gates n_qubits in
            (case be qc 1024 of
               Inl e \<Rightarrow> Raises e
             | Inr cnts \<Rightarrow>
                 let all_zeros = replicate (nat n_qubits) CHR ''0'';
                     detected_type =
                       (if (case map_of cnts all_zeros of None \<Rightarrow> False | Some c \<Rightarrow> c > 900)
                        then ''constant'' else ''balanced'')
                 in Returns \<lparr>dj_n_qubits = n_qubits, dj_actual_type = function_type,
                             dj_detected_type = detected_type,
                             dj_correct = (detected_type = function_type),
                             dj_measurements = cnts, dj_circuit_of = qc, dj_queries = 1\<rparr>))"

text \<open>
  The share of the shots that gave the all-zero outcome: its count over the total of
  the histogram. The source compares the count itself.
\<close>

definition all_zero_share :: "int \<Rightarrow> counts \<Rightarrow> real" where
  "all_zero_share n_qubits cnts =
     real (counts_get cnts (replicate (nat n_qubits) CHR ''0'')) / real (sum_list (map snd cnts))"

section \<open>Phase estimation (src/backend/quantum/phase\_estimation.py)\<close>

text \<open>
  The counting register is qubits \<open>0 .. n - 1\<close> of the circuit and the eigenstate qubit is
  qubit \<open>n\<close>. The decomposed inverse transform of the library is one entry of the record.
  A phase is a Python float, read as a real number; \<open>2 ** n\<close> on a negative \<open>n\<close> is the
  reciprocal power.
\<close>

definition qpe_circuit :: "real \<Rightarrow> int \<Rightarrow> circuit" where
  "qpe_circuit phase n_counting_qubits =
     \<lparr>qubits = n_counting_qubits + 1, clbits = n_counting_qubits,
      gates = [X n_counting_qubits, HAll [0..n_counting_qubits - 1]]
        @ map (\<lambda>i. CP (2 * pi * phase * 2 ^ nat i) i n_counting_qubits) [0..n_counting_qubits - 1]
        @ [InverseQFT [0..n_counting_qubits - 1],
           MeasureAll [0..n_counting_qubits - 1] [0..n_counting_qubits - 1]]\<rparr>"

record qpe_result =
  qpe_actual_phase :: real
  qpe_estimated_phase :: real
  qpe_error :: real
  qpe_precision :: real
  qpe_n_counting_qubits :: int
  qpe_success_probability :: real
  qpe_measured_state :: string
  qpe_measured_int :: int
  qpe_measurements :: counts
  qpe_circuit_of :: circuit

definition qpe_run :: "backend \<Rightarrow> real \<Rightarrow> int \<Rightarrow> qpe_result outcome" where
  "qpe_run be phase n_counting_qubits =
     (if n_counting_qubits > 10 then ErrorDict ''Too many qubits for simulation''
      else if phase < 0 \<or> phase \<ge> 1 then ErrorDict ''Phase must be in range [0, 1)''
      else
        let qc = qpe_circuit phase n_counting_qubits in
        case be qc 2048 of
          Inl e \<Rightarrow> Raises e
        | Inr cnts \<Rightarrow>
            (case max_count_key cnts of
               Inl e \<Rightarrow> Raises e
             | Inr (max_count_state, max_count) \<Rightarrow>
                 (case int_base2 max_count_state of
                    Inl e \<Rightarrow> Raises e
                  | Inr measured_int \<Rightarrow>
                      let estimated_phase = real_of_int measured_int / (2 powi n_counting_qubits);
                          error = \<bar>estimated_phase - phase\<bar>;
                          precision = 1 / (2 powi n_counting_qubits);
                          success_prob = real max_count / 2048
                      in Returns \<lparr>qpe_actual_phase = phase,
                                  qpe_estimated_phase = estimated_phase,
                                  qpe_error = error,
                                  qpe_precision = precision,
                                  qpe_n_counting_qubits = n_counting_qubits,
                                  qpe_success_probability = success_prob,
                                  qpe_measured_state = max_count_state,
                                  qpe_measured_int = measured_int,
                                  qpe_measurements = cnts,
                                  qpe_circuit_of = qc\<rparr>)))"

section \<open>Extremum search (src/quantum/min\_max.py)\<close>

text \<open>
  The entries of the padded list: a value of the data, or one of the sentinels
  \<open>float('inf')\<close> and \<open>float('-inf')\<close>.
\<close>

datatype 'a padded = Value 'a | PosInf | NegInf

definition power_of_2 :: "nat \<Rightarrow> nat" where
  "power_of_2 n = 2 ^ ceil_log2 n"

definition padded_data :: "'a list \<Rightarrow> bool \<Rightarrow> 'a padded list" where
  "padded_data data find_min =
     (if find_min
      then map Value data @ replicate (power_of_2 (length data) - length data) PosInf
      else map Value data @ replicate (power_of_2 (length data) - length data) NegInf)"

text \<open>The built-in \<open>min\<close> and \<open>max\<close> of a non-empty list: one pass over it.\<close>

definition py_min :: "'a::linorder list \<Rightarrow> 'a" where
  "py_min xs = fold min (tl xs) (hd xs)"

definition py_max :: "'a::linorder list \<Rightarrow> 'a" where
  "py_max xs = fold max (tl xs) (hd xs)"

definition min_max_oracle :: "nat list \<Rightarrow> int \<Rightarrow> gate list" where
  "min_max_oracle target_indices n_qubits =
     concat (map (\<lambda>target_idx.
        let binary = format_binary (int target_idx) n_qubits
        in x_on_zero_bits binary @ multi_controlled_z n_qubits @ x_on_zero_bits binary)
      target_indices)"

definition min_max_diffusion :: "int \<Rightarrow> gate list" where
  "min_max_diffusion n_qubits =
     [HAll [0..n_qubits - 1], XAll [0..n_qubits - 1]] @ multi_controlled_z n_qubits
     @ [XAll [0..n_qubits - 1], HAll [0..n_qubits - 1]]"

definition min_max_circuit :: "nat list \<Rightarrow> int \<Rightarrow> int \<Rightarrow> circuit" where
  "min_max_circuit target_indices n_qubits n_iterations =
     \<lparr>qubits = n_qubits, clbits = n_qubits,
      gates = [HAll [0..n_qubits - 1]]
        @ concat (replicate (nat n_iterations)
            (min_max_oracle target_indices n_qubits @ min_max_diffusion n_qubits))
        @ [MeasureAll [0..n_qubits - 1] [0..n_qubits - 1]]\<rparr>"

record 'a qmm_result =
  qmm_data :: "'a list"
  qmm_find_min :: bool
  qmm_target_value :: 'a
  qmm_target_indices :: "nat list"
  qmm_found_index :: int
  qmm_found_value :: "'a option"
  qmm_success :: bool
  qmm_success_rate :: real
  qmm_iterations :: int
  qmm_measurements :: counts

text \<open>
  \<open>QuantumMinMaxAlgorithm.run\<close>. The padded list is built and not used again.
\<close>

definition min_max_run :: "backend \<Rightarrow> 'a::linorder list \<Rightarrow> bool \<Rightarrow> 'a qmm_result outcome" where
  "min_max_run be data find_min =
     (if length data = 0 then ErrorDict ''Empty data list''
      else
        let n = length data;
            padded = padded_data data find_min;
            target_value = (if find_min then py_min data else py_max data);
            target_indices = filter (\<lambda>i. data ! i = target_value) [0..<length data];
            n_qubits = int (floor_log2 (power_of_2 n))
        in
        if n_qubits > 10 then ErrorDict ''Data size too large for simulation''
        else if length target_indices = 0 then Raises ZeroDivisionError
        else
          let n_iterations = optimal_iterations (int (power_of_2 n)) (length target_indices);
              qc = min_max_circuit target_indices n_qubits n_iterations
          in case be qc 1000 of
               Inl e \<Rightarrow> Raises e
             | Inr cnts \<Rightarrow>
                 (case max_count_key cnts of
                    Inl e \<Rightarrow> Raises e
                  | Inr (max_count_state, max_count) \<Rightarrow>
                      (case int_base2 max_count_state of
                         Inl e \<Rightarrow> Raises e
                       | Inr found_index \<Rightarrow>
                           let (found_value, success) =
                                 (if found_index < int (length data)
                                  then (Some (data ! nat found_index),
                                        data ! nat found_index = target_value)
                                  else (None, False));
                               success_count =
                                 sum_list (map (\<lambda>idx.
                                     counts_get cnts (format_binary (int idx) n_qubits))
                                   target_indices)
                           in Returns \<lparr>qmm_data = data, qmm_find_min = find_min,
                                       qmm_target_value = target_value,
                                       qmm_target_indices = target_indices,
                                       qmm_found_index = found_index,
                                       qmm_found_value = found_value,
                                       qmm_success = success,
                                       qmm_success_rate = real success_count / 1000,
                                       qmm_iterations = n_iterations,
                                       qmm_measurements = cnts\<rparr>)))"

section \<open>Checks of the circuit library\<close>

text \<open>
  Qiskit checks every call that builds the circuit. A register of negative size is
  refused with \<open>CircuitError\<close>. Indexing a register (\<open>qr[i]\<close>) is Python sequence
  indexing: outside \<open>-size \<le> i < size\<close> it raises \<open>IndexError\<close>. A gate applied to an
  empty collection of qubits, or to an integer that names no qubit of the circuit, raises
  \<open>CircuitError\<close>. The first call that fails ends the run.
\<close>

definition valid_index :: "int \<Rightarrow> int \<Rightarrow> bool" where
  "valid_index n i \<longleftrightarrow> - n \<le> i \<and> i < n"

fun gate_error :: "int \<Rightarrow> int \<Rightarrow> gate \<Rightarrow> exn option" where
  "gate_error nq nc (H i) = (if valid_index nq i then None else Some IndexError)"
| "gate_error nq nc (X i) = (if valid_index nq i then None else Some IndexError)"
| "gate_error nq nc (Z i) = (if valid_index nq i then None else Some IndexError)"
| "gate_error nq nc (CZ i j) =
     (if valid_index nq i \<and> valid_index nq j then None else Some IndexError)"
| "gate_error nq nc (CX i j) =
     (if valid_index nq i \<and> valid_index nq j then None else Some IndexError)"
| "gate_error nq nc (CP angle i j) =
     (if valid_index nq i \<and> valid_index nq j then None else Some IndexError)"
| "gate_error nq nc (MCX cs t) =
     (if list_all (valid_index nq) cs \<and> valid_index nq t then None else Some CircuitError)"
| "gate_error nq nc (HAll qs) =
     (if qs \<noteq> [] \<and> list_all (valid_index nq) qs then None else Some CircuitError)"
| "gate_error nq nc (XAll qs) =
     (if qs \<noteq> [] \<and> list_all (valid_index nq) qs then None else Some CircuitError)"
| "gate_error nq nc (InverseQFT qs) =
     (if list_all (valid_index nq) qs then None else Some CircuitError)"
| "gate_error nq nc (MeasureAll qs cs) =
     (if qs \<noteq> [] \<and> cs \<noteq> [] \<and> list_all (valid_index nq) qs \<and> list_all (valid_index nc) cs
      then None else Some CircuitError)"

fun first_error :: "exn option list \<Rightarrow> exn option" where
  "first_error [] = None"
| "first_error (Some e # es) = Some e"
| "first_error (None # es) = first_error es"

definition circuit_error :: "circuit \<Rightarrow> exn option" where
  "circuit_error qc =
     (if qubits qc < 0 \<or> clbits qc < 0 then Some CircuitError
      else first_error (map (gate_error (qubits qc) (clbits qc)) (gates qc)))"

section \<open>The state-vector simulator\<close>

text \<open>
  Modelled from the spec: the state-vector simulator (section 4.1), which the source
  takes from Qiskit Aer and which is no code of the repository. A register of \<open>n\<close>
  qubits holds \<open>2^n\<close> complex amplitudes, indexed by the binary value they represent;
  \<open>init\<close> sets index 0 to amplitude 1 and all others to 0.
\<close>

type_synonym state = "nat \<Rightarrow> complex"

definition init_state :: state where
  "init_state = (\<lambda>i. if i = 0 then 1 else 0)"

text \<open>
  Modelled from the spec: \<open>apply_single(gate_matrix, target)\<close>. For every pair of basis
  indices that differ only in bit \<open>target\<close>, the two amplitudes are replaced by the 2x2
  linear combination the matrix \<open>((a, b), (c, d))\<close> defines.
\<close>

type_synonym matrix = "complex \<times> complex \<times> complex \<times> complex"

definition apply_single :: "matrix \<Rightarrow> nat \<Rightarrow> state \<Rightarrow> state" where
  "apply_single m target psi =
     (case m of (a, b, c, d) \<Rightarrow>
        (\<lambda>i. if bit i target then c * psi (unset_bit target i) + d * psi i
             else a * psi i + b * psi (set_bit target i)))"

text \<open>
  Modelled from the spec: \<open>apply_controlled(gate_matrix, control, target)\<close>, the same
  but only for basis indices where bit \<open>control\<close> is 1.
\<close>

definition apply_controlled :: "matrix \<Rightarrow> nat \<Rightarrow> nat \<Rightarrow> state \<Rightarrow> state" where
  "apply_controlled m control target psi =
     (\<lambda>i. if bit i control then apply_single m target psi i else psi i)"

text \<open>
  Modelled from the spec: \<open>apply_multi_controlled_flip(controls, target)\<close> flips bit
  \<open>target\<close> only for basis indices where every bit in \<open>controls\<close> is 1.
\<close>

definition apply_multi_controlled_flip :: "nat list \<Rightarrow> nat \<Rightarrow> state \<Rightarrow> state" where
  "apply_multi_controlled_flip controls target psi =
     (\<lambda>i. if list_all (bit i) controls then psi (flip_bit target i) else psi i)"

text \<open>
  Modelled from the spec: \<open>apply_phase(angle, target)\<close> multiplies the amplitude by
  \<open>e^(i angle)\<close> for every basis index with bit \<open>target\<close> 1; with a control set it is the
  controlled phase.
\<close>

definition apply_phase :: "real \<Rightarrow> nat list \<Rightarrow> nat \<Rightarrow> state \<Rightarrow> state" where
  "apply_phase angle controls target psi =
     (\<lambda>i. if bit i target \<and> list_all (bit i) controls then cis angle * psi i else psi i)"

text \<open>
  Modelled from the spec: the inverse frequency transform, which converts a phase
  encoded across the counting qubits into a measurable integer. On the register formed
  by the qubits \<open>0 .. t - 1\<close> (qubit 0 the least significant bit) it is the inverse
  discrete Fourier transform of the amplitudes; the qubits above are left alone.
\<close>

definition apply_inverse_qft :: "nat \<Rightarrow> state \<Rightarrow> state" where
  "apply_inverse_qft t psi =
     (\<lambda>i. (\<Sum>x<2 ^ t. cis (- 2 * pi * real x * real (i mod 2 ^ t) / 2 ^ t)
                        * psi ((i div 2 ^ t) * 2 ^ t + x)) / sqrt (2 ^ t))"

definition hadamard :: matrix where
  "hadamard = (1 / sqrt 2, 1 / sqrt 2, 1 / sqrt 2, - 1 / sqrt 2)"

definition pauli_x :: matrix where
  "pauli_x = (0, 1, 1, 0)"

text \<open>The qubit a valid index names: Python counts a negative index from the end.\<close>

definition qubit_of :: "int \<Rightarrow> int \<Rightarrow> nat" where
  "qubit_of n i = nat (i mod n)"

text \<open>
  The operator of each recorded call on a circuit of \<open>nq\<close> qubits. A measurement leaves
  the amplitudes as they are: every circuit measures last.
\<close>

fun apply_gate :: "int \<Rightarrow> gate \<Rightarrow> state \<Rightarrow> state" where
  "apply_gate nq (H i) psi = apply_single hadamard (qubit_of nq i) psi"
| "apply_gate nq (X i) psi = apply_single pauli_x (qubit_of nq i) psi"
| "apply_gate nq (Z i) psi = apply_phase pi [] (qubit_of nq i) psi"
| "apply_gate nq (CZ i j) psi = apply_phase pi [qubit_of nq i] (qubit_of nq j) psi"
| "apply_gate nq (CX i j) psi = apply_controlled pauli_x (qubit_of nq i) (qubit_of nq j) psi"
| "apply_gate nq (CP angle i j) psi = apply_phase angle [qubit_of nq i] (qubit_of nq j) psi"
| "apply_gate nq (MCX cs t) psi =
     apply_multi_controlled_flip (map (qubit_of nq) cs) (qubit_of nq t) psi"
| "apply_gate nq (HAll qs) psi = fold (\<lambda>q. apply_single hadamard (qubit_of nq q)) qs psi"
| "apply_gate nq (XAll qs) psi = fold (\<lambda>q. apply_single pauli_x (qubit_of nq q)) qs psi"
| "apply_gate nq (InverseQFT qs) psi = apply_inverse_qft (length qs) psi"
| "apply_gate nq (MeasureAll qs cs) psi = psi"

definition final_state :: "circuit \<Rightarrow> state" where
  "final_state qc = fold (apply_gate (qubits qc)) (gates qc) init_state"

text \<open>
  The pairs (qubit, classical bit) of the measurements, and the value of the classical
  register that a basis index yields.
\<close>

fun measure_pairs :: "int \<Rightarrow> int \<Rightarrow> gate list \<Rightarrow> (nat \<times> nat) list" where
  "measure_pairs nq nc [] = []"
| "measure_pairs nq nc (MeasureAll qs cs # gs) =
     zip (map (qubit_of nq) qs) (map (qubit_of nc) cs) @ measure_pairs nq nc gs"
| "measure_pairs nq nc (g # gs) = measure_pairs nq nc gs"

definition measured_value :: "(nat \<times> nat) list \<Rightarrow> nat \<Rightarrow> nat" where
  "measured_value pairs i = sum_list (map (\<lambda>(q, c). if bit i q then 2 ^ c else 0) pairs)"

text \<open>
  Modelled from the spec: \<open>measure(shots)\<close> builds the cumulative distribution over the
  squared magnitudes of the amplitudes, renormalised if their sum is further from 1 than
  the tolerance, and draws \<open>shots\<close> samples with a random source that is supplied from
  outside: draw \<open>k\<close> is a number \<open>rnd k\<close> of \<open>[0, 1)\<close>, and the sample is the first outcome
  whose cumulative probability exceeds it (the last outcome if there is none). The
  histogram maps the bitstring of each outcome that occurred to its number of occurrences,
  in the order of the outcomes.
\<close>

definition outcome_probability :: "circuit \<Rightarrow> nat \<Rightarrow> real" where
  "outcome_probability qc y =
     (\<Sum>i \<in> {i. i < 2 ^ nat (qubits qc)
                \<and> measured_value (measure_pairs (qubits qc) (clbits qc) (gates qc)) i = y}.
        (cmod (final_state qc i))\<^sup>2)"

definition sampling_probability :: "circuit \<Rightarrow> nat \<Rightarrow> real" where
  "sampling_probability qc y =
     (let total = (\<Sum>z<2 ^ nat (clbits qc). outcome_probability qc z)
      in if \<bar>total - 1\<bar> > 1 / 10 ^ 9 then outcome_probability qc y / total
         else outcome_probability qc y)"

definition cumulative :: "(nat \<Rightarrow> real) \<Rightarrow> nat \<Rightarrow> real" where
  "cumulative p y = (\<Sum>z\<le>y. p z)"

definition sample_outcome :: "nat \<Rightarrow> (nat \<Rightarrow> real) \<Rightarrow> real \<Rightarrow> nat" where
  "sample_outcome n p u =
     (case find (\<lambda>y. u < cumulative p y) [0..<n] of Some y \<Rightarrow> y | None \<Rightarrow> n - 1)"

definition histogram :: "nat \<Rightarrow> nat list \<Rightarrow> counts" where
  "histogram nc outcomes =
     map (\<lambda>y. (format_binary (int y) (int nc), count_list outcomes y))
       (filter (\<lambda>y. 0 < count_list outcomes y) [0..<2 ^ nc])"

text \<open>
  The Aer simulator as a backend: the library's checks, then the histogram of the
  samples. The random source is its argument.
\<close>

definition aer_backend :: "(nat \<Rightarrow> real) \<Rightarrow> backend" where
  "aer_backend rnd qc shots =
     (case circuit_error qc of
        Some e \<Rightarrow> Inl e
      | None \<Rightarrow>
          Inr (histogram (nat (clbits qc))
                 (map (\<lambda>k. sample_outcome (2 ^ nat (clbits qc)) (sampling_probability qc) (rnd k))
                    [0..<shots])))"

definition random_source :: "(nat \<Rightarrow> real) \<Rightarrow> bool" where
  "random_source rnd \<longleftrightarrow> (\<forall>k. 0 \<le> rnd k \<and> rnd k < 1)"

section \<open>Properties of the linear extremum scan\<close>

lemma min_scan_invariant:
  assumes "0 < k" "k \<le> length data"
  shows "\<exists>t i. fold (min_step data) [1..<k] (data ! 0, 0, 0) = (t, i, k - 1)
            \<and> t = Min (set (take k data)) \<and> first_index_of (take k data) t i"
  using assms
proof (induction k)
  case 0
  then show ?case by simp
next
  case (Suc k)
  show ?case
  proof (cases "k = 0")
    case True
    with Suc.prems have "take (Suc 0) data = [data ! 0]"
      by (cases data) auto
    with True show ?thesis
      by (simp add: first_index_of_def)
  next
    case False
    with Suc obtain t i where st: "fold (min_step data) [1..<k] (data ! 0, 0, 0) = (t, i, k - 1)"
      and t: "t = Min (set (take k data))" and fi: "first_index_of (take k data) t i"
      by auto
    from Suc.prems have tk: "take (Suc k) data = take k data @ [data ! k]"
      by (simp add: take_Suc_conv_app_nth)
    from False Suc.prems have ne: "set (take k data) \<noteq> {}" by (cases data) auto
    have upt: "[1..<Suc k] = [1..<k] @ [k]" using False by simp
    have Min_app: "Min (set (take (Suc k) data)) = min (data ! k) t"
      using ne by (simp add: tk t)
    show ?thesis
    proof (cases "data ! k < t")
      case True
      have all: "\<forall>x\<in>set (take k data). data ! k < x"
        using True t ne by (auto simp: Min_gr_iff)
      have "first_index_of (take (Suc k) data) (data ! k) k"
        unfolding first_index_of_def using Suc.prems all
        by (auto simp: nth_append tk in_set_conv_nth)
      with True st False show ?thesis
        by (auto simp: upt Min_app min_def)
    next
      case False
      from fi have "first_index_of (take (Suc k) data) t i"
        unfolding first_index_of_def tk by (auto simp: nth_append)
      with False st \<open>k \<noteq> 0\<close> show ?thesis
        by (auto simp: upt Min_app min_def)
    qed
  qed
qed

lemma max_scan_invariant:
  assumes "0 < k" "k \<le> length data"
  shows "\<exists>t i. fold (max_step data) [1..<k] (data ! 0, 0, 0) = (t, i, k - 1)
            \<and> t = Max (set (take k data)) \<and> first_index_of (take k data) t i"
  using assms
proof (induction k)
  case 0
  then show ?case by simp
next
  case (Suc k)
  show ?case
  proof (cases "k = 0")
    case True
    with Suc.prems have "take (Suc 0) data = [data ! 0]"
      by (cases data) auto
    with True show ?thesis
      by (simp add: first_index_of_def)
  next
    case False
    with Suc obtain t i where st: "fold (max_step data) [1..<k] (data ! 0, 0, 0) = (t, i, k - 1)"
      and t: "t = Max (set (take k data))" and fi: "first_index_of (take k data) t i"
      by auto
    from Suc.prems have tk: "take (Suc k) data = take k data @ [data ! k]"
      by (simp add: take_Suc_conv_app_nth)
    from False Suc.prems have ne: "set (take k data) \<noteq> {}" by (cases data) auto
    have upt: "[1..<Suc k] = [1..<k] @ [k]" using False by simp
    have Max_app: "Max (set (take (Suc k) data)) = max (data ! k) t"
      using ne by (simp add: tk t)
    show ?thesis
    proof (cases "t < data ! k")
      case True
      have all: "\<forall>x\<in>set (take k data). x < data ! k"
        using True t ne by (auto simp: Max_less_iff)
      have "first_index_of (take (Suc k) data) (data ! k) k"
        unfolding first_index_of_def using Suc.prems all
        by (auto simp: nth_append tk in_set_conv_nth)
      with True st False show ?thesis
        by (auto simp: upt Max_app max_def)
    next
      case False
      from fi have "first_index_of (take (Suc k) data) t i"
        unfolding first_index_of_def tk by (auto simp: nth_append)
      with False st \<open>k \<noteq> 0\<close> show ?thesis
        by (auto simp: upt Max_app max_def)
    qed
  qed
qed

text \<open>
  C8. For every non-empty list, \<open>classical_min_max\<close> returns a result whose
  \<open>comparisons\<close> field is \<open>len(data) - 1\<close>, whose \<open>value\<close> is the minimum of the data
  (the maximum when \<open>find_min\<close> is false) and whose \<open>index\<close> is the first position
  holding that value.
\<close>

theorem classical_min_max_correct:
  assumes "data \<noteq> []"
  shows "\<exists>r. classical_min_max data find_min = Returns r
           \<and> cmm_comparisons r = length data - 1
           \<and> cmm_value r = (if find_min then Min (set data) else Max (set data))
           \<and> first_index_of data (cmm_value r) (cmm_index r)"
proof -
  from assms have len: "0 < length data" "length data \<le> length data" by simp_all
  show ?thesis
  proof (cases find_min)
    case True
    from min_scan_invariant[OF len] obtain t i where
      "fold (min_step data) [1..<length data] (data ! 0, 0, 0) = (t, i, length data - 1)"
      "t = Min (set data)" "first_index_of data t i"
      by auto
    with True assms show ?thesis
      by (simp add: classical_min_max_def)
  next
    case False
    from max_scan_invariant[OF len] obtain t i where
      "fold (max_step data) [1..<length data] (data ! 0, 0, 0) = (t, i, length data - 1)"
      "t = Max (set data)" "first_index_of data t i"
      by auto
    with False assms show ?thesis
      by (simp add: classical_min_max_def)
  qed
qed

theorem classical_min_max_correct_witness:
  "[7, 3, 9, 1, 5, 8, 2, 6 :: int] \<noteq> []
   \<and> (\<exists>r. classical_min_max [7, 3, 9, 1, 5, 8, 2, 6 :: int] True = Returns r
          \<and> cmm_comparisons r = 7 \<and> cmm_value r = 1
          \<and> first_index_of [7, 3, 9, 1, 5, 8, 2, 6] (cmm_value r) (cmm_index r))"
  using classical_min_max_correct [of "[7, 3, 9, 1, 5, 8, 2, 6 :: int]" True]
  by (simp add: eval_nat_numeral)

section \<open>Properties of classical period finding\<close>

lemma period_loop_result:
  assumes "current = a ^ r mod N" "1 \<le> r" "int r \<le> N"
  shows "fst (period_loop a N current r iters) =
           (if \<exists>j. r \<le> j \<and> int j \<le> N \<and> a ^ j mod N = 1
            then Some (LEAST j. r \<le> j \<and> a ^ j mod N = 1) else None)"
  using assms
proof (induction a N current r iters rule: period_loop.induct)
  case (1 a N current r iters)
  show ?case
  proof (cases "current = 1")
    case True
    with "1.prems" have here: "a ^ r mod N = 1" by simp
    then have "(LEAST j. r \<le> j \<and> a ^ j mod N = 1) = r"
      by (intro Least_equality) auto
    moreover have "\<exists>j. r \<le> j \<and> int j \<le> N \<and> a ^ j mod N = 1"
      using here "1.prems" by blast
    ultimately show ?thesis using True by (subst period_loop.simps) simp
  next
    case False
    with "1.prems" have nothere: "a ^ r mod N \<noteq> 1" by simp
    have shift: "(r \<le> j \<and> a ^ j mod N = 1) \<longleftrightarrow> (Suc r \<le> j \<and> a ^ j mod N = 1)" for j
      using nothere by (cases "j = r") auto
    show ?thesis
    proof (cases "int (r + 1) > N")
      case True
      then have "\<not> (\<exists>j. r \<le> j \<and> int j \<le> N \<and> a ^ j mod N = 1)"
        using nothere "1.prems" by (metis shift Suc_eq_plus1 of_nat_mono order.trans not_less)
      with True False show ?thesis by (subst period_loop.simps) simp
    next
      case le: False
      have next_inv: "(current * a) mod N = a ^ (r + 1) mod N"
        using "1.prems" by (simp add: mod_mult_left_eq mod_mult_right_eq mult.commute)
      have IH: "fst (period_loop a N ((current * a) mod N) (r + 1) (iters + 1)) =
           (if \<exists>j. r + 1 \<le> j \<and> int j \<le> N \<and> a ^ j mod N = 1
            then Some (LEAST j. r + 1 \<le> j \<and> a ^ j mod N = 1) else None)"
        using "1.IH"[OF False refl refl le next_inv] le by simp
      have ex: "(\<exists>j. r \<le> j \<and> int j \<le> N \<and> a ^ j mod N = 1)
            \<longleftrightarrow> (\<exists>j. r + 1 \<le> j \<and> int j \<le> N \<and> a ^ j mod N = 1)"
        using shift by auto
      have least: "(LEAST j. r \<le> j \<and> a ^ j mod N = 1) = (LEAST j. r + 1 \<le> j \<and> a ^ j mod N = 1)"
        using shift by simp
      show ?thesis
        using False le IH unfolding ex least by (subst period_loop.simps) simp
    qed
  qed
qed

lemma period_loop_iterations:
  assumes "1 \<le> r" "int r \<le> N"
  shows "int (snd (period_loop a N current r iters)) \<le> int iters + N + 1 - int r"
  using assms
proof (induction a N current r iters rule: period_loop.induct)
  case (1 a N current r iters)
  show ?case
  proof (cases "current = 1")
    case True
    with "1.prems" show ?thesis by (subst period_loop.simps) simp
  next
    case False
    show ?thesis
    proof (cases "int (r + 1) > N")
      case True
      with False "1.prems" show ?thesis by (subst period_loop.simps) simp
    next
      case le: False
      have "int (snd (period_loop a N ((current * a) mod N) (r + 1) (iters + 1)))
              \<le> int (iters + 1) + N + 1 - int (r + 1)"
        using "1.IH"[OF False refl refl le] le by simp
      with False le show ?thesis by (subst period_loop.simps) simp
    qed
  qed
qed

text \<open>
  C10. For every base \<open>a\<close> and modulus \<open>N \<ge> 2\<close>, \<open>_classical_period_finding\<close> returns
  after at most \<open>N + 1\<close> executions of the loop body. It returns \<open>None\<close> when
  \<open>gcd(a, N) \<noteq> 1\<close> or when no \<open>r\<close> with \<open>1 \<le> r \<le> N\<close> has \<open>a^r mod N = 1\<close>, and
  otherwise the least \<open>r \<ge> 1\<close> with \<open>a^r mod N = 1\<close>.
\<close>

theorem classical_period_finding_spec:
  assumes "2 \<le> N"
  shows "\<exists>iters. classical_period_finding_counted a N =
             Inr (if gcd a N \<noteq> 1 then None
                  else if \<exists>r. 1 \<le> r \<and> int r \<le> N \<and> a ^ r mod N = 1
                       then Some (LEAST r. 1 \<le> r \<and> a ^ r mod N = 1)
                       else None,
                  iters)
           \<and> int iters \<le> N + 1
           \<and> classical_period_finding a N =
             Inr (if gcd a N \<noteq> 1 then None
                  else if \<exists>r. 1 \<le> r \<and> int r \<le> N \<and> a ^ r mod N = 1
                       then Some (LEAST r. 1 \<le> r \<and> a ^ r mod N = 1)
                       else None)"
proof (cases "gcd a N = 1")
  case False
  with assms show ?thesis
    by (simp add: classical_period_finding_def classical_period_finding_counted_def)
next
  case True
  from assms have N: "N \<noteq> 0" "int 1 \<le> N" by simp_all
  have res: "fst (period_loop a N (a mod N) 1 0) =
           (if \<exists>j. 1 \<le> j \<and> int j \<le> N \<and> a ^ j mod N = 1
            then Some (LEAST j. 1 \<le> j \<and> a ^ j mod N = 1) else None)"
    using period_loop_result[of "a mod N" a 1 N 0] N by simp
  have its: "int (snd (period_loop a N (a mod N) 1 0)) \<le> N + 1"
    using period_loop_iterations[of 1 N a "a mod N" 0] N by simp
  obtain res' k where pk: "period_loop a N (a mod N) 1 0 = (res', k)"
    by (cases "period_loop a N (a mod N) 1 0")
  with res its True N show ?thesis
    by (simp add: classical_period_finding_def classical_period_finding_counted_def)
qed

theorem classical_period_finding_spec_witness:
  "(2::int) \<le> 15 \<and> classical_period_finding 2 15 = Inr (Some 4)
   \<and> (LEAST r. 1 \<le> r \<and> (2::int) ^ r mod 15 = 1) = 4"
proof -
  have ev: "classical_period_finding 2 15 = Inr (Some 4)"
    by code_simp
  from classical_period_finding_spec [of 15 2] ev show ?thesis
    by (auto split: if_splits)
qed


section \<open>Properties of the factorization entry point\<close>

text \<open>
  C7. For every even \<open>N\<close>, \<open>ShorAlgorithm.run\<close> returns the factor pair \<open>[2, N // 2]\<close>,
  and for every odd \<open>N\<close> within the simulation limit and every base \<open>a\<close> with
  \<open>gcd(a, N) > 1\<close> it returns \<open>[g, N // g]\<close> for \<open>g = gcd(a, N)\<close>. Neither result
  depends on the period-finding method: it is not called.
\<close>

theorem shor_run_trivial_and_gcd:
  "(N mod 2 = 0 \<longrightarrow>
      shor_run_with period_finding N a_arg = Inr (Factors [2, N div 2] ''trivial'')
      \<and> shor_run N a_arg = Inr (Factors [2, N div 2] ''trivial''))
   \<and> (N mod 2 \<noteq> 0 \<and> N \<le> 21 \<and> 1 < gcd a N \<longrightarrow>
      shor_run_with period_finding N (Some a) = Inr (Factors [gcd a N, N div gcd a N] ''gcd'')
      \<and> shor_run N (Some a) = Inr (Factors [gcd a N, N div gcd a N] ''gcd''))"
  by (simp add: shor_run_def shor_run_with_def Let_def)

theorem shor_run_trivial_and_gcd_witness:
  "(14::int) mod 2 = 0
   \<and> shor_run_with (\<lambda>a N. Inl LibraryError) 14 None = Inr (Factors [2, 7] ''trivial'')
   \<and> shor_run 14 None = Inr (Factors [2, 7] ''trivial'')
   \<and> (15::int) mod 2 \<noteq> 0 \<and> (15::int) \<le> 21 \<and> 1 < gcd (6::int) 15
   \<and> shor_run_with (\<lambda>a N. Inl LibraryError) 15 (Some 6) = Inr (Factors [3, 5] ''gcd'')
   \<and> shor_run 15 (Some 6) = Inr (Factors [3, 5] ''gcd'')"
proof -
  have g: "gcd (6::int) 15 = 3" by code_simp
  show ?thesis
    using shor_run_trivial_and_gcd [of 14 "\<lambda>a N. Inl LibraryError" None 6]
      shor_run_trivial_and_gcd [of 15 "\<lambda>a N. Inl LibraryError" None 6]
    by (simp add: g)
qed


section \<open>The factorization entry point makes a single attempt\<close>

lemma period_found_modulus:
  assumes "classical_period_finding a N = Inr (Some k)"
  shows "2 \<le> N"
proof (rule ccontr)
  assume "\<not> 2 \<le> N"
  then have N: "N < 2" by simp
  have "a mod N \<noteq> 1"
  proof
    assume h: "a mod N = 1"
    show False
    proof (cases "N > 0")
      case True
      with N have "N = 1" by simp
      with h show False by simp
    next
      case False
      then have "N = 0 \<or> N < 0" by auto
      then show False
      proof
        assume "N = 0"
        with assms show False
          by (auto simp: classical_period_finding_def classical_period_finding_counted_def
              split: if_splits)
      next
        assume "N < 0"
        then have "a mod N \<le> 0" by (rule neg_mod_sign)
        with h show False by simp
      qed
    qed
  qed
  with N have "period_loop a N (a mod N) 1 0 = (None, 1)"
    by (subst period_loop.simps) simp
  with assms show False
    by (auto simp: classical_period_finding_def classical_period_finding_counted_def
        split: if_splits)
qed

lemma gcd_pred_of_minus_one:
  assumes "(x + 1) mod N = 0" "N mod 2 \<noteq> 0"
  shows "gcd (x - 1) (N::int) = 1"
proof -
  from assms(1) have "N dvd x + 1" by (simp add: mod_eq_0_iff_dvd)
  then obtain m where m: "x + 1 = N * m" ..
  have "x - 1 = m * N + (- 2)" using m by (simp add: algebra_simps)
  then have "gcd (x - 1) N = gcd N (m * N + (- 2))" by (simp only: gcd.commute)
  also have "\<dots> = gcd N (- 2)" by (rule gcd_add_mult)
  also have "\<dots> = gcd N 2" by simp
  finally have e: "gcd (x - 1) N = gcd N 2" .
  have "gcd N 2 dvd 2" by simp
  then have "gcd N 2 \<le> 2" by (intro zdvd_imp_le) simp_all
  moreover have "gcd N 2 \<ge> 0" by simp
  moreover have "gcd N 2 \<noteq> 0" by simp
  moreover have "gcd N 2 \<noteq> 2"
  proof
    assume "gcd N 2 = 2"
    then have "2 dvd N" by (metis gcd_dvd1)
    with assms(2) show False by presburger
  qed
  ultimately have "gcd N 2 = 1" by linarith
  with e show ?thesis by simp
qed

text \<open>
  With base 4 the order modulo 21 is 3, which is odd: the run ends at once with
  \<open>'Period not suitable'\<close>, although base 2 (order 6) yields the factors 7 and 3.
\<close>

theorem shor_run_no_retry_counterexample:
  "classical_period_finding 4 21 = Inr (Some 3)
   \<and> shor_run 21 (Some 4) = Inr (NotSuitable (Some 3))
   \<and> shor_run 21 (Some 2) = Inr (QuantumFactors [7, 3] 6 2)"
  by code_simp

text \<open>
  C3 (amended). \<open>ShorAlgorithm.run\<close> makes one attempt and never retries with a new base.
  For odd \<open>N\<close> within the simulation limit and a base \<open>a\<close> coprime to \<open>N\<close>, period
  finding returns; when the period is \<open>None\<close> or odd the run returns the error result
  \<open>'Period not suitable'\<close>, and when it is even with \<open>a^(r/2) \<equiv> -1 (mod N)\<close> the run
  returns the error result \<open>'Factorization failed'\<close>.
\<close>

theorem shor_run_single_attempt:
  assumes "N mod 2 \<noteq> 0" "N \<le> 21" "gcd a N = 1"
  shows "\<exists>r. classical_period_finding a N = Inr r \<and>
           (case r of
              None \<Rightarrow> shor_run N (Some a) = Inr (NotSuitable None)
            | Some k \<Rightarrow>
                (odd k \<longrightarrow> shor_run N (Some a) = Inr (NotSuitable (Some k)))
                \<and> (even k \<and> (a ^ (k div 2) + 1) mod N = 0 \<longrightarrow>
                     shor_run N (Some a) = Inr (FactorizationFailed k)))"
proof -
  from assms(1) have N0: "N \<noteq> 0" by auto
  obtain res iters where pl: "period_loop a N (a mod N) 1 0 = (res, iters)"
    by (cases "period_loop a N (a mod N) 1 0")
  have cpf: "classical_period_finding a N = Inr res"
    using assms(3) N0 pl
    by (simp add: classical_period_finding_def classical_period_finding_counted_def)
  show ?thesis
  proof (cases res)
    case None
    with cpf assms show ?thesis
      by (simp add: shor_run_def shor_run_with_def quantum_period_finding_def)
  next
    case (Some k)
    have odd_case: "shor_run N (Some a) = Inr (NotSuitable (Some k))" if "odd k"
      using that cpf Some assms
      by (simp add: shor_run_def shor_run_with_def quantum_period_finding_def odd_iff_mod_2_eq_one)
    have even_case: "shor_run N (Some a) = Inr (FactorizationFailed k)"
      if "even k" and m1: "(a ^ (k div 2) + 1) mod N = 0"
    proof -
      from cpf Some have "2 \<le> N" using period_found_modulus by simp
      then have Npos: "0 < N" by simp
      have f1: "gcd (a ^ (k div 2) - 1) N = 1"
        using gcd_pred_of_minus_one[OF m1 assms(1)] .
      from m1 have "N dvd a ^ (k div 2) + 1" by (simp add: mod_eq_0_iff_dvd)
      then have "gcd (a ^ (k div 2) + 1) N = \<bar>N\<bar>"
        by (simp add: gcd.commute gcd_proj1_iff)
      with Npos have f2: "gcd (a ^ (k div 2) + 1) N = N" by simp
      from that(1) have ev: "k mod 2 = 0" by presburger
      show ?thesis
        using cpf Some assms ev f1 f2
        by (simp add: shor_run_def shor_run_with_def quantum_period_finding_def Let_def)
    qed
    from cpf Some odd_case even_case show ?thesis by simp
  qed
qed

theorem shor_run_single_attempt_witness:
  "((21::int) mod 2 \<noteq> 0 \<and> (21::int) \<le> 21 \<and> gcd (4::int) 21 = 1
     \<and> classical_period_finding 4 21 = Inr (Some 3) \<and> odd (3::nat)
     \<and> shor_run 21 (Some 4) = Inr (NotSuitable (Some 3)))
   \<and> ((9::int) mod 2 \<noteq> 0 \<and> (9::int) \<le> 21 \<and> gcd (2::int) 9 = 1
     \<and> classical_period_finding 2 9 = Inr (Some 6) \<and> even (6::nat)
     \<and> ((2::int) ^ (6 div 2) + 1) mod 9 = 0
     \<and> shor_run 9 (Some 2) = Inr (FactorizationFailed 6))"
proof -
  have g: "gcd (4::int) 21 = 1" "gcd (2::int) 9 = 1" by code_simp+
  have p: "classical_period_finding 4 21 = Inr (Some 3)"
    "classical_period_finding 2 9 = Inr (Some 6)" by code_simp+
  have m: "((2::int) ^ (6 div 2) + 1) mod 9 = 0" by code_simp
  show ?thesis
    using shor_run_single_attempt [of 21 4] shor_run_single_attempt [of 9 2] g p m
    by simp
qed


section \<open>Properties of the worst-case query simulator\<close>

lemma queries_needed_pos:
  assumes "1 \<le> n"
  shows "queries_needed n = 2 ^ (nat n - 1) + 1" and "2 \<le> queries_needed n"
proof -
  from assms obtain k where k: "nat n = Suc k" by (cases "nat n") auto
  then show "queries_needed n = 2 ^ (nat n - 1) + 1"
    by (simp add: queries_needed_def)
  then show "2 \<le> queries_needed n" by simp
qed

text \<open>
  C9. For every \<open>n_qubits \<ge> 1\<close> and either function type, with any well-formed random
  source, \<open>classical_deutsch_jozsa\<close> returns \<open>correct = true\<close>: the detected type is the
  given one. The constant outputs are all equal to the chosen value, and the
  \<open>2^(n-1) + 1 \<ge> 2\<close> balanced outputs contain both a 0 and a 1.
\<close>

theorem classical_deutsch_jozsa_correct:
  assumes "1 \<le> n" "function_type = ''constant'' \<or> function_type = ''balanced''" "rng_ok g"
  shows "\<exists>r. classical_deutsch_jozsa g n function_type = Inr r
           \<and> cdj_correct r \<and> cdj_detected_type r = function_type
           \<and> cdj_queries r = 2 ^ (nat n - 1) + 1 \<and> 2 \<le> cdj_queries r
           \<and> length (simulated_outputs g n function_type) = nat (cdj_queries r)
           \<and> (function_type = ''constant'' \<longrightarrow>
                set (simulated_outputs g n function_type) = {rng_choice g [0, 1]})
           \<and> (function_type = ''balanced'' \<longrightarrow>
                set (simulated_outputs g n function_type) = {0, 1})"
proof -
  note q = queries_needed_pos[OF assms(1)]
  from assms(3) have sh: "\<And>xs. mset (rng_shuffle g xs) = mset xs"
    by (simp add: rng_ok_def)
  have shset: "set (rng_shuffle g xs) = set xs" for xs
    using sh[of xs] by (metis set_mset_mset)
  have shlen: "length (rng_shuffle g xs) = length xs" for xs
    using sh[of xs] by (metis size_mset)
  from assms(2) show ?thesis
  proof
    assume c: "function_type = ''constant''"
    have "set (simulated_outputs g n function_type) = {rng_choice g [0, 1]}"
      using c q(2) by (simp add: simulated_outputs_def Let_def)
    moreover have "length (simulated_outputs g n function_type) = nat (queries_needed n)"
      using c by (simp add: simulated_outputs_def Let_def)
    ultimately show ?thesis
      using c q assms(1) by (simp add: classical_deutsch_jozsa_def Let_def)
  next
    assume b: "function_type = ''balanced''"
    let ?q = "queries_needed n"
    have h1: "0 < nat (?q div 2)" and h2: "0 < nat (?q - ?q div 2)"
      using q(2) by simp_all
    have s: "set (simulated_outputs g n function_type) = {0, 1}"
      using b h1 h2 by (auto simp: simulated_outputs_def Let_def shset)
    have "nat (?q div 2) + nat (?q - ?q div 2) = nat ?q"
      using q(2) by simp
    then have l: "length (simulated_outputs g n function_type) = nat ?q"
      using b by (simp add: simulated_outputs_def Let_def shlen)
    have "card {0, 1 :: int} = 2" by simp
    with s have "card (set (simulated_outputs g n function_type)) \<noteq> 1" by simp
    with s l b q assms(1) show ?thesis
      by (simp add: classical_deutsch_jozsa_def Let_def)
  qed
qed

theorem classical_deutsch_jozsa_correct_witness:
  "(1::int) \<le> 3 \<and> rng_ok \<lparr>rng_choice = hd, rng_shuffle = rev\<rparr>
   \<and> (\<exists>r. classical_deutsch_jozsa \<lparr>rng_choice = hd, rng_shuffle = rev\<rparr> 3 ''balanced'' = Inr r
          \<and> cdj_correct r \<and> cdj_detected_type r = ''balanced'' \<and> cdj_queries r = 5
          \<and> set (simulated_outputs \<lparr>rng_choice = hd, rng_shuffle = rev\<rparr> 3 ''balanced'') = {0, 1})"
proof -
  have ok: "rng_ok \<lparr>rng_choice = hd, rng_shuffle = rev\<rparr>"
    by (simp add: rng_ok_def)
  show ?thesis
    using classical_deutsch_jozsa_correct
      [of 3 "''balanced''" "\<lparr>rng_choice = hd, rng_shuffle = rev\<rparr>"] ok
    by (auto simp: eval_nat_numeral)
qed


section \<open>Circuits the library accepts, and the histograms of the simulator\<close>

lemma first_error_None:
  "list_all (\<lambda>e. e = None) es \<Longrightarrow> first_error es = None"
  by (induction es) auto

lemma circuit_error_NoneI:
  assumes "0 \<le> qubits qc" "0 \<le> clbits qc"
    "list_all (\<lambda>g. gate_error (qubits qc) (clbits qc) g = None) (gates qc)"
  shows "circuit_error qc = None"
  using assms by (auto simp: circuit_error_def list_all_iff intro!: first_error_None)

lemma upto_valid:
  "list_all (valid_index n) [0..n - 1]"
  by (auto simp: list_all_iff valid_index_def)

lemma upto_nonempty: "1 \<le> n \<Longrightarrow> [0..n - 1] \<noteq> []"
  by (simp add: upto_rec1)

lemma bin_digits_nonempty: "bin_digits m \<noteq> []"
  by (subst bin_digits.simps) simp

lemma bin_digits_chars: "c \<in> set (bin_digits m) \<Longrightarrow> c = CHR ''0'' \<or> c = CHR ''1''"
proof (induction m rule: bin_digits.induct)
  case (1 n)
  show ?case
  proof (cases "n < 2")
    case True
    with "1.prems" show ?thesis by (subst (asm) bin_digits.simps) (auto split: if_splits)
  next
    case False
    with "1.prems" have "c \<in> set (bin_digits (n div 2)) \<or> c = CHR ''0'' \<or> c = CHR ''1''"
      by (subst (asm) bin_digits.simps) (auto split: if_splits)
    with "1.IH"[OF False] show ?thesis by blast
  qed
qed

lemma length_bin_digits:
  "m < 2 ^ n \<Longrightarrow> 0 < n \<Longrightarrow> length (bin_digits m) \<le> n"
proof (induction m arbitrary: n rule: bin_digits.induct)
  case (1 m)
  show ?case
  proof (cases "m < 2")
    case True
    with "1.prems" show ?thesis by (subst bin_digits.simps) simp
  next
    case False
    from "1.prems" obtain k where k: "n = Suc k" by (cases n) auto
    with "1.prems" False have "m div 2 < 2 ^ k" by auto
    moreover have "0 < k" using False k "1.prems" by (cases k) auto
    ultimately have "length (bin_digits (m div 2)) \<le> k" using "1.IH"[OF False] by blast
    with False k show ?thesis by (subst bin_digits.simps) simp
  qed
qed

lemma bitstring_format_binary: "bitstring (format_binary (int y) w)"
  using bin_digits_nonempty[of y] bin_digits_chars[of _ y]
  by (auto simp: bitstring_def format_binary_def zero_fill_def list_all_iff)

lemma length_format_binary:
  assumes "m < 2 ^ n" "0 < n"
  shows "length (format_binary (int m) (int n)) = n"
  using length_bin_digits[OF assms] by (simp add: format_binary_def zero_fill_def)

lemma x_on_zero_bits_valid:
  assumes "int (length binary) \<le> nq"
  shows "list_all (\<lambda>g. gate_error nq nc g = None) (x_on_zero_bits binary)"
proof -
  have "i < length binary" if "(i, b) \<in> set (enumerate 0 (rev binary))" for i b
    using that by (auto simp: in_set_enumerate_eq)
  with assms show ?thesis
    by (fastforce simp: x_on_zero_bits_def list_all_iff valid_index_def)
qed

lemma multi_controlled_z_valid:
  assumes "1 \<le> n"
  shows "list_all (\<lambda>g. gate_error n nc g = None) (multi_controlled_z n)"
  using assms by (auto simp: multi_controlled_z_def valid_index_def list_all_iff)

lemma all_gates_valid:
  assumes "1 \<le> n"
  shows "gate_error n nc (HAll [0..n - 1]) = None" "gate_error n nc (XAll [0..n - 1]) = None"
    "gate_error n n (MeasureAll [0..n - 1] [0..n - 1]) = None"
  using assms upto_valid[of n] upto_nonempty[of n] by simp_all

lemma grover_oracle_valid:
  assumes "\<forall>m \<in> set marked_items. 0 \<le> m \<and> m < 2 ^ k" "0 < k"
  shows "list_all (\<lambda>g. gate_error (int k) nc g = None) (grover_oracle marked_items (int k))"
proof -
  have "list_all (\<lambda>g. gate_error (int k) nc g = None) (x_on_zero_bits (format_binary m (int k)))"
    if "m \<in> set marked_items" for m
  proof -
    from that assms(1) have m: "0 \<le> m" "m < 2 ^ k" by auto
    then have "nat m < 2 ^ k" by (simp add: nat_less_iff)
    from length_format_binary[OF this assms(2)] m
    have "length (format_binary m (int k)) = k" by simp
    then show ?thesis by (intro x_on_zero_bits_valid) simp
  qed
  moreover have "list_all (\<lambda>g. gate_error (int k) nc g = None) (multi_controlled_z (int k))"
    using assms(2) by (intro multi_controlled_z_valid) simp
  ultimately show ?thesis
    by (auto simp: grover_oracle_def list_all_iff Let_def)
qed

lemma grover_circuit_valid:
  assumes "\<forall>m \<in> set marked_items. 0 \<le> m \<and> m < 2 ^ k" "0 < k"
  shows "circuit_error (grover_circuit marked_items (int k) its) = None"
proof -
  have k: "1 \<le> int k" using assms(2) by simp
  note a = all_gates_valid[OF k]
  have d: "list_all (\<lambda>g. gate_error (int k) (int k) g = None) (grover_diffusion (int k))"
    using a multi_controlled_z_valid[OF k, of "int k"] by (simp add: grover_diffusion_def)
  note o = grover_oracle_valid[OF assms, of "int k"]
  show ?thesis
    by (rule circuit_error_NoneI)
      (use a d o in \<open>auto simp: grover_circuit_def list_all_iff\<close>)
qed

lemma sample_outcome_less: "0 < n \<Longrightarrow> sample_outcome n p u < n"
  by (auto simp: sample_outcome_def find_Some_iff split: option.splits)

lemma histogram_bitstrings: "list_all (\<lambda>(bits, c). bitstring bits) (histogram nc outcomes)"
  by (simp add: histogram_def list_all_iff bitstring_format_binary)

lemma histogram_nonempty:
  assumes "outcomes \<noteq> []" "\<forall>y \<in> set outcomes. y < 2 ^ nc"
  shows "histogram nc outcomes \<noteq> []"
proof -
  from assms(1) obtain y where y: "y \<in> set outcomes" by (cases outcomes) auto
  with assms(2) have "y < 2 ^ nc" by blast
  moreover from y have "0 < count_list outcomes y"
    using count_list_0_iff[of outcomes y] by auto
  ultimately have "y \<in> set (filter (\<lambda>y. 0 < count_list outcomes y) [0..<2 ^ nc])" by simp
  then show ?thesis unfolding histogram_def by (metis empty_iff empty_set map_is_Nil_conv)
qed

lemma aer_backend_valid:
  assumes "circuit_error qc = None"
  shows "\<exists>cnts. aer_backend rnd qc shots = Inr cnts
           \<and> list_all (\<lambda>(bits, c). bitstring bits) cnts \<and> (0 < shots \<longrightarrow> cnts \<noteq> [])"
proof -
  let ?outs = "map (\<lambda>k. sample_outcome (2 ^ nat (clbits qc)) (sampling_probability qc) (rnd k)) [0..<shots]"
  have "\<forall>y \<in> set ?outs. y < 2 ^ nat (clbits qc)"
    by (auto intro: sample_outcome_less)
  then have "0 < shots \<longrightarrow> histogram (nat (clbits qc)) ?outs \<noteq> []"
    using histogram_nonempty[of ?outs "nat (clbits qc)"] by auto
  with assms show ?thesis 
    by (simp add: aer_backend_def histogram_bitstrings)
qed


section \<open>Properties of the unstructured search entry point\<close>

lemma pow2_and_pred: "(2::int) ^ k AND (2 ^ k - 1) = 0"
proof -
  have "\<not> bit (mask k :: int) k" by (simp add: bit_mask_iff)
  then have "(mask k :: int) AND 2 ^ k = 0" by (simp add: and_exp_eq_0_iff_not_bit)
  then show ?thesis by (simp add: mask_eq_exp_minus_1 and.commute)
qed

lemma floor_log2_pow2: "floor_log2 (2 ^ k) = k"
proof (induction k)
  case 0
  show ?case by (subst floor_log2.simps) simp
next
  case (Suc k)
  have "(2::nat) ^ Suc k \<ge> 2" by simp
  then have "\<not> (2::nat) ^ Suc k < 2" by linarith
  then show ?case using Suc by (subst floor_log2.simps) simp
qed

lemma and_pred_pos:
  fixes x :: int
  assumes "0 < x" "x AND (x - 1) = 0"
  shows "\<exists>k. x = 2 ^ k"
  using assms
proof (induction "nat x" arbitrary: x rule: less_induct)
  case less
  have rec: "x AND (x - 1) = of_bool (odd x \<and> odd (x - 1)) + 2 * ((x div 2) AND ((x - 1) div 2))"
    by (rule and_int_rec)
  show ?case
  proof (cases "even x")
    case True
    then obtain y where y: "x = 2 * y" by (elim evenE)
    with less.prems have ypos: "0 < y" by simp
    have "(x - 1) div 2 = y - 1" unfolding y by simp
    with rec True less.prems(2) have "y AND (y - 1) = 0" by (simp add: y)
    moreover have "nat y < nat x" using ypos y by simp
    ultimately obtain k where "y = 2 ^ k" using less.hyps ypos by blast
    then have "x = 2 ^ Suc k" using y by simp
    then show ?thesis by blast
  next
    case False
    then have "even (x - 1)" by simp
    have "(x - 1) div 2 = x div 2" using False by presburger
    with rec \<open>even (x - 1)\<close> less.prems(2) have "x div 2 = 0" by simp
    with False less.prems(1) have "x = 1" by presburger
    then have "x = 2 ^ 0" by simp
    then show ?thesis by blast
  qed
qed

lemma and_pred_zero_iff:
  fixes x :: int
  shows "(x \<noteq> 0 \<and> x AND (x - 1) = 0) \<longleftrightarrow> (\<exists>k. x = 2 ^ k)"
proof
  assume h: "x \<noteq> 0 \<and> x AND (x - 1) = 0"
  have "\<not> x < 0"
  proof
    assume "x < 0"
    then have "x AND (x - 1) < 0" by (simp add: and_negative_int_iff)
    with h show False by simp
  qed
  with h have "0 < x" by simp
  with h show "\<exists>k. x = 2 ^ k" using and_pred_pos by blast
next
  assume "\<exists>k. x = 2 ^ k"
  then show "x \<noteq> 0 \<and> x AND (x - 1) = 0" using pow2_and_pred by auto
qed

lemma pi_ge_3: "3 \<le> pi"
proof -
  have "sin (pi / 6) \<le> pi / 6" by (rule sin_x_le_x) simp
  then show ?thesis by (simp add: sin_30)
qed

lemma optimal_iterations_16_1: "optimal_iterations 16 1 = 3"
proof -
  have "sqrt 16 = 4" by (rule real_sqrt_unique) simp_all
  then have "pi / 4 * sqrt (real_of_int 16 / real 1) = pi" by simp
  moreover have "\<lfloor>pi\<rfloor> = 3" using pi_ge_3 pi_less_4 by (intro floor_unique) simp_all
  ultimately show ?thesis by (simp add: optimal_iterations_def)
qed

lemma grover_analyze_bitstrings:
  assumes "list_all (\<lambda>(bits, c). bitstring bits) cnts"
  shows "\<exists>found sc. grover_analyze marked_items cnts acc = Inr (found, sc)"
  using assms
proof (induction cnts arbitrary: acc)
  case Nil
  then show ?case by (cases acc) simp
next
  case (Cons kc cnts)
  obtain bits c where kc: "kc = (bits, c)" by (cases kc)
  obtain f sc where acc: "acc = (f, sc)" by (cases acc)
  from Cons.prems kc have b: "bitstring bits" and rest: "list_all (\<lambda>(bits, c). bitstring bits) cnts"
    by simp_all
  from b obtain v where v: "int_base2 bits = Inr v" by (simp add: int_base2_def)
  show ?case
    using Cons.IH[OF rest] by (simp add: kc acc v)
qed

lemma grover_run_valid:
  assumes "marked_items \<noteq> []" "k \<le> 10"
  shows "grover_run be marked_items (2 ^ k) =
     (let n_iterations = optimal_iterations (2 ^ k) (length marked_items);
          qc = grover_circuit marked_items (int k) n_iterations
      in case be qc 1000 of
           Inl e \<Rightarrow> Raises e
         | Inr cnts \<Rightarrow>
             (case grover_analyze marked_items cnts ([], 0) of
                Inl e \<Rightarrow> Raises e
              | Inr (found_items, success_count) \<Rightarrow>
                  Returns \<lparr>gr_marked_items = marked_items,
                           gr_found_items = set found_items,
                           gr_success_rate = real success_count / 1000,
                           gr_iterations = n_iterations,
                           gr_measurements = cnts,
                           gr_circuit = qc\<rparr>))"
proof -
  have "nat ((2::int) ^ k) = 2 ^ k" by (simp add: nat_power_eq)
  then have "floor_log2 (nat ((2::int) ^ k)) = k" by (simp only: floor_log2_pow2)
  with assms show ?thesis
    by (simp add: grover_run_def pow2_and_pred)
qed

lemma grover_run_returns_iterations:
  assumes "marked_items \<noteq> []" "k \<le> 10" "grover_run be marked_items (2 ^ k) = Returns r"
  shows "gr_iterations r = optimal_iterations (2 ^ k) (length marked_items)"
  using assms(3) unfolding grover_run_valid[OF assms(1,2)]
  by (auto simp: Let_def split: sum.splits prod.splits)

lemma optimal_iterations_1_1: "optimal_iterations 1 1 = 0"
proof -
  have "pi / 4 * sqrt (real_of_int 1 / real 1) = pi / 4" by simp
  moreover have "\<lfloor>pi / 4\<rfloor> = 0" using pi_ge_3 pi_less_4 by (intro floor_unique) simp_all
  ultimately show ?thesis by (simp add: optimal_iterations_def)
qed

text \<open>
  The marked index 32 needs a sixth binary digit: the oracle indexes the four-qubit
  register at position 4 and the library raises \<open>IndexError\<close>. On a search space of size
  1 the register is empty and the first gate raises \<open>CircuitError\<close>. Neither run reports
  an iteration count.
\<close>

theorem grover_run_no_result_counterexample:
  "grover_run (aer_backend (\<lambda>k. 0)) [32] 16 = Raises IndexError
   \<and> grover_run (aer_backend (\<lambda>k. 0)) [0] 1 = Raises CircuitError"
proof -
  have e1: "circuit_error (grover_circuit [32] 4 3) = Some IndexError"
    by code_simp
  have e2: "circuit_error (grover_circuit [0] 0 0) = Some CircuitError"
    by code_simp
  have b1: "aer_backend (\<lambda>k. 0) (grover_circuit [32] 4 3) 1000 = Inl IndexError"
    unfolding aer_backend_def e1 by simp
  have b2: "aer_backend (\<lambda>k. 0) (grover_circuit [0] 0 0) 1000 = Inl CircuitError"
    unfolding aer_backend_def e2 by simp
  have "grover_run (aer_backend (\<lambda>k. 0)) [32] (2 ^ 4) = Raises IndexError"
    using optimal_iterations_16_1
    by (subst grover_run_valid) (simp_all add: Let_def b1)
  moreover have "grover_run (aer_backend (\<lambda>k. 0)) [0] (2 ^ 0) = Raises CircuitError"
    using optimal_iterations_1_1
    by (subst grover_run_valid) (simp_all add: Let_def b2)
  ultimately show ?thesis by simp
qed

text \<open>
  C1 (amended). For every non-empty \<open>marked_items\<close> whose items all lie in
  \<open>[0, search_space_size)\<close> and every power-of-two \<open>search_space_size\<close> with at least 1
  and at most 10 qubits, \<open>GroverAlgorithm.run\<close> on the simulator returns a result, for
  every random source, and its \<open>iterations\<close> field is
  \<open>floor(pi/4 * sqrt(search_space_size / |marked_items|))\<close>. On any backend, every result
  returned carries that count and no error dictionary is returned. For
  \<open>marked_items = [5]\<close> and \<open>search_space_size = 16\<close> the iteration count is 3.
\<close>

theorem grover_run_iterations:
  assumes "marked_items \<noteq> []" "\<forall>m \<in> set marked_items. 0 \<le> m \<and> m < search_space_size"
    "search_space_size = 2 ^ k" "1 \<le> k" "k \<le> 10"
  shows "(\<forall>rnd. \<exists>r. grover_run (aer_backend rnd) marked_items search_space_size = Returns r
            \<and> gr_iterations r =
                \<lfloor>pi / 4 * sqrt (real_of_int search_space_size / real (length marked_items))\<rfloor>)
       \<and> (\<forall>be r. grover_run be marked_items search_space_size = Returns r \<longrightarrow>
            gr_iterations r =
              \<lfloor>pi / 4 * sqrt (real_of_int search_space_size / real (length marked_items))\<rfloor>)
       \<and> (\<forall>be msg. grover_run be marked_items search_space_size \<noteq> ErrorDict msg)
       \<and> (\<forall>rnd. \<exists>r. grover_run (aer_backend rnd) [5] 16 = Returns r \<and> gr_iterations r = 3)"
proof -
  note run = grover_run_valid[OF assms(1) assms(5), folded assms(3)]
  have returns: "\<exists>r. grover_run (aer_backend rnd) ms (2 ^ j) = Returns r
            \<and> gr_iterations r = optimal_iterations (2 ^ j) (length ms)"
    if ms: "ms \<noteq> []" "\<forall>m \<in> set ms. 0 \<le> m \<and> m < 2 ^ j" and j: "1 \<le> j" "j \<le> 10"
    for rnd ms j
  proof -
    from j have "0 < j" by simp
    from grover_circuit_valid[OF ms(2) this]
    have "circuit_error (grover_circuit ms (int j) (optimal_iterations (2 ^ j) (length ms))) = None" .
    from aer_backend_valid[OF this, of rnd 1000] obtain cnts where
      cnts: "aer_backend rnd (grover_circuit ms (int j) (optimal_iterations (2 ^ j) (length ms)))
               1000 = Inr cnts"
      and bs: "list_all (\<lambda>(bits, c). bitstring bits) cnts" by blast
    from grover_analyze_bitstrings[OF bs] obtain found sc
      where "grover_analyze ms cnts ([], 0) = Inr (found, sc)" by blast
    with cnts show ?thesis
      unfolding grover_run_valid[OF ms(1) j(2)] by (simp add: Let_def)
  qed
  have a: "\<exists>r. grover_run (aer_backend rnd) marked_items search_space_size = Returns r
            \<and> gr_iterations r =
                \<lfloor>pi / 4 * sqrt (real_of_int search_space_size / real (length marked_items))\<rfloor>"
    for rnd
    using returns[OF assms(1) assms(2)[unfolded assms(3)] assms(4,5), of rnd]
    by (simp add: assms(3) optimal_iterations_def)
  have b: "gr_iterations r =
             \<lfloor>pi / 4 * sqrt (real_of_int search_space_size / real (length marked_items))\<rfloor>"
    if "grover_run be marked_items search_space_size = Returns r" for be r
    using that unfolding run
    by (auto simp: Let_def optimal_iterations_def split: sum.splits prod.splits)
  have c: "grover_run be marked_items search_space_size \<noteq> ErrorDict msg" for be msg
    unfolding run by (auto simp: Let_def split: sum.splits prod.splits)
  have d: "\<exists>r. grover_run (aer_backend rnd) [5] 16 = Returns r \<and> gr_iterations r = 3" for rnd
    using returns[of "[5]" 4 rnd] optimal_iterations_16_1 by simp
  from a b c d show ?thesis by blast
qed

theorem grover_run_iterations_witness:
  "[5::int] \<noteq> [] \<and> (0::int) \<le> 5 \<and> (5::int) < 16 \<and> (16::int) = 2 ^ 4
   \<and> (1::nat) \<le> 4 \<and> (4::nat) \<le> 10
   \<and> (\<forall>rnd. \<exists>r. grover_run (aer_backend rnd) [5] 16 = Returns r \<and> gr_iterations r = 3)"
proof -
  have p1: "[5::int] \<noteq> []" by simp
  have p2: "\<forall>m \<in> set [5::int]. 0 \<le> m \<and> m < 16" by simp
  have p3: "(16::int) = 2 ^ 4" by simp
  have p4: "(1::nat) \<le> 4" and p5: "(4::nat) \<le> 10" by simp_all
  note t = grover_run_iterations [of "[5]" 16 4, OF p1 p2 p3 p4 p5]
  from t have "\<forall>rnd. \<exists>r. grover_run (aer_backend rnd) [5] 16 = Returns r \<and> gr_iterations r = 3"
    by (elim conjE)
  with p1 p3 p4 p5 show ?thesis by simp
qed


section \<open>Validation in the unstructured search entry point\<close>

text \<open>
  The marked index 16 lies outside the search space of size 16. The call is not
  rejected: the circuit is built and executed, and a result dictionary is returned.
\<close>

theorem grover_run_out_of_range_counterexample:
  "grover_run (\<lambda>qc shots. Inr [(''0000'', 1000)]) [16] 16 =
     Returns \<lparr>gr_marked_items = [16], gr_found_items = {}, gr_success_rate = 0,
              gr_iterations = 3, gr_measurements = [(''0000'', 1000)],
              gr_circuit = grover_circuit [16] 4 3\<rparr>
   \<and> grover_oracle [16] 4 =
       [X 0, X 1, X 2, X 3, H 3, MCX [0, 1, 2] 3, H 3, X 0, X 1, X 2, X 3]"
proof -
  have o: "grover_oracle [16] 4 =
       [X 0, X 1, X 2, X 3, H 3, MCX [0, 1, 2] 3, H 3, X 0, X 1, X 2, X 3]"
    by code_simp
  have b: "int_base2 ''0000'' = Inr 0"
    by (simp add: int_base2_def bitstring_def)
  have "grover_run (\<lambda>qc shots. Inr [(''0000'', 1000)]) [16] (2 ^ 4) =
     Returns \<lparr>gr_marked_items = [16], gr_found_items = {}, gr_success_rate = 0,
              gr_iterations = 3, gr_measurements = [(''0000'', 1000)],
              gr_circuit = grover_circuit [16] 4 3\<rparr>"
    using optimal_iterations_16_1
    by (subst grover_run_valid) (simp_all add: Let_def b)
  with o show ?thesis by simp
qed

text \<open>
  C2 (amended). For every call in which \<open>search_space_size\<close> is not a power of two (zero
  and negative sizes included), \<open>GroverAlgorithm.run\<close> returns the error result
  \<open>'Search space must be a power of 2'\<close> at once: whatever the simulator would do, it is
  not consulted, and nothing is retried. \<open>marked_items\<close> is not validated.
\<close>

theorem grover_run_rejects_non_power_of_two:
  assumes "\<not> (\<exists>k. search_space_size = 2 ^ k)"
  shows "\<forall>be. grover_run be marked_items search_space_size =
           ErrorDict ''Search space must be a power of 2''"
proof -
  from assms have "search_space_size = 0 \<or> \<not> (search_space_size AND (search_space_size - 1) = 0)"
    using and_pred_zero_iff[of search_space_size] by blast
  then show ?thesis
    by (auto simp: grover_run_def)
qed

theorem grover_run_rejects_non_power_of_two_witness:
  "\<not> (\<exists>k. (12::int) = 2 ^ k)
   \<and> (\<forall>be. grover_run be [5] 12 = ErrorDict ''Search space must be a power of 2'')"
proof -
  have "(12::int) AND (12 - 1) \<noteq> 0" by simp
  then have n: "\<not> (\<exists>k. (12::int) = 2 ^ k)"
    using and_pred_zero_iff[of 12] by blast
  with grover_run_rejects_non_power_of_two [of 12 "[5]"] show ?thesis by blast
qed


section \<open>The decision threshold of function-type determination\<close>

text \<open>
  With 901 of the 1024 shots on the all-zero outcome the share is below 0.88, and the
  run declares the function constant.
\<close>

theorem dj_run_threshold_counterexample:
  "dj_run (\<lambda>qc shots. Inr [(''000'', 901), (''111'', 123)]) True 3 ''constant'' =
     Returns \<lparr>dj_n_qubits = 3, dj_actual_type = ''constant'',
              dj_detected_type = ''constant'', dj_correct = True,
              dj_measurements = [(''000'', 901), (''111'', 123)],
              dj_circuit_of = dj_circuit [X 3] 3, dj_queries = 1\<rparr>
   \<and> sum_list (map snd [(''000'', 901::nat), (''111'', 123)]) = 1024
   \<and> \<not> (all_zero_share 3 [(''000'', 901), (''111'', 123)] > 0.88)"
  by (simp add: dj_run_def dj_oracle_def all_zero_share_def counts_get_def numeral_3_eq_3 Let_def)

lemma counts_get_gt:
  "(case map_of cnts key of None \<Rightarrow> False | Some c \<Rightarrow> c > n) \<longleftrightarrow> counts_get cnts key > n"
  by (simp add: counts_get_def split: option.splits)

text \<open>
  C4 (amended). For every \<open>n_qubits \<le> 10\<close> and either function type the oracle is built,
  and whenever the simulator delivers the histogram of the run,
  \<open>DeutschJozsaAlgorithm.run\<close> declares \<open>'constant'\<close> exactly when the all-zero outcome
  was counted more than 900 times, and \<open>'balanced'\<close> otherwise. On the 1024 shots of the
  run that is: exactly when the share of the all-zero outcome exceeds 900/1024.
\<close>

theorem dj_run_threshold:
  assumes "n_qubits \<le> 10" "function_type = ''constant'' \<or> function_type = ''balanced''"
  shows "\<exists>og. dj_oracle coin n_qubits function_type = Inr og \<and>
           (\<forall>be cnts. be (dj_circuit og n_qubits) 1024 = Inr cnts \<longrightarrow>
              (\<exists>r. dj_run be coin n_qubits function_type = Returns r
                 \<and> dj_detected_type r =
                     (if counts_get cnts (replicate (nat n_qubits) CHR ''0'') > 900
                      then ''constant'' else ''balanced'')
                 \<and> (sum_list (map snd cnts) = 1024 \<longrightarrow>
                      (dj_detected_type r = ''constant'' \<longleftrightarrow>
                         all_zero_share n_qubits cnts > 900 / 1024))))"
proof -
  from assms(2) obtain og where og: "dj_oracle coin n_qubits function_type = Inr og"
    by (auto simp: dj_oracle_def)
  have "\<exists>r. dj_run be coin n_qubits function_type = Returns r
                 \<and> dj_detected_type r =
                     (if counts_get cnts (replicate (nat n_qubits) CHR ''0'') > 900
                      then ''constant'' else ''balanced'')
                 \<and> (sum_list (map snd cnts) = 1024 \<longrightarrow>
                      (dj_detected_type r = ''constant'' \<longleftrightarrow>
                         all_zero_share n_qubits cnts > 900 / 1024))"
    if be: "be (dj_circuit og n_qubits) 1024 = Inr cnts" for be cnts
  proof -
    let ?z = "counts_get cnts (replicate (nat n_qubits) CHR ''0'')"
    have run: "dj_run be coin n_qubits function_type =
        Returns \<lparr>dj_n_qubits = n_qubits, dj_actual_type = function_type,
                 dj_detected_type = (if ?z > 900 then ''constant'' else ''balanced''),
                 dj_correct = ((if ?z > 900 then ''constant'' else ''balanced'') = function_type),
                 dj_measurements = cnts, dj_circuit_of = dj_circuit og n_qubits,
                 dj_queries = 1\<rparr>"
      using assms(1) og be by (simp add: dj_run_def Let_def counts_get_gt)
    have share: "(?z > 900) \<longleftrightarrow> all_zero_share n_qubits cnts > 900 / 1024"
      if "sum_list (map snd cnts) = 1024"
      using that by (simp add: all_zero_share_def)
    show ?thesis
      unfolding run using share by simp
  qed
  with og show ?thesis by blast
qed

theorem dj_run_threshold_witness:
  "(3::int) \<le> 10
   \<and> dj_oracle True 3 ''constant'' = Inr [X 3]
   \<and> (\<exists>r. dj_run (\<lambda>qc shots. Inr [(''000'', 901), (''111'', 123)]) True 3 ''constant'' = Returns r
          \<and> dj_detected_type r = ''constant''
          \<and> all_zero_share 3 [(''000'', 901), (''111'', 123)] > 900 / 1024)"
proof -
  have og: "dj_oracle True 3 ''constant'' = Inr [X 3]"
    by (simp add: dj_oracle_def)
  have z: "counts_get [(''000'', 901), (''111'', 123)] (replicate (nat 3) CHR ''0'') = 901"
    by (simp add: counts_get_def numeral_3_eq_3)
  have s: "sum_list (map snd [(''000'', 901::nat), (''111'', 123)]) = 1024" by simp
  from dj_run_threshold [of 3 "''constant''" True] og
  have "\<forall>be cnts. be (dj_circuit [X 3] 3) 1024 = Inr cnts \<longrightarrow>
              (\<exists>r. dj_run be True 3 ''constant'' = Returns r
                 \<and> dj_detected_type r =
                     (if counts_get cnts (replicate (nat 3) CHR ''0'') > 900
                      then ''constant'' else ''balanced'')
                 \<and> (sum_list (map snd cnts) = 1024 \<longrightarrow>
                      (dj_detected_type r = ''constant'' \<longleftrightarrow>
                         all_zero_share 3 cnts > 900 / 1024)))"
    by simp
  from this[rule_format, of "\<lambda>qc shots. Inr [(''000'', 901), (''111'', 123)]"
      "[(''000'', 901), (''111'', 123)]"]
  obtain r where
    "dj_run (\<lambda>qc shots. Inr [(''000'', 901), (''111'', 123)]) True 3 ''constant'' = Returns r"
    "dj_detected_type r = ''constant''"
    "all_zero_share 3 [(''000'', 901), (''111'', 123)] > 900 / 1024"
    using z s by auto
  with og show ?thesis by auto
qed


section \<open>Properties of phase estimation\<close>

lemma max_key_loop_maximal:
  assumes "max_key_loop best rest = (s, c)"
  shows "(s, c) \<in> set (best # rest) \<and> (\<forall>(k, c') \<in> set (best # rest). c' \<le> c)"
  using assms
proof (induction rest arbitrary: best)
  case Nil
  then show ?case by (cases best) auto
next
  case (Cons kc rest)
  obtain k n where kc: "kc = (k, n)" by (cases kc)
  obtain bk bn where best: "best = (bk, bn)" by (cases best)
  show ?case
  proof (cases "n > bn")
    case True
    with Cons.prems kc best have "max_key_loop (k, n) rest = (s, c)" by simp
    from Cons.IH[OF this] True show ?thesis by (auto simp: kc best)
  next
    case False
    with Cons.prems kc best have "max_key_loop (bk, bn) rest = (s, c)" by simp
    from Cons.IH[OF this] False show ?thesis by (fastforce simp: kc best)
  qed
qed

lemma max_count_key_maximal:
  assumes "max_count_key cnts = Inr (s, c)"
  shows "(s, c) \<in> set cnts \<and> (\<forall>(k, c') \<in> set cnts. c' \<le> c)"
proof (cases cnts)
  case Nil
  with assms show ?thesis by simp
next
  case (Cons kc rest)
  with assms have "max_key_loop kc rest = (s, c)" by simp
  from max_key_loop_maximal[OF this] Cons show ?thesis by simp
qed

lemma int_base2_0100: "int_base2 ''0100'' = Inr 4"
  by (simp add: int_base2_def bitstring_def)

text \<open>
  C5. For a phase in \<open>[0, 1)\<close> and \<open>t \<le> 10\<close> counting qubits, whenever the simulator
  delivers a histogram whose most frequent outcome is a bitstring,
  \<open>QuantumPhaseEstimation.run\<close> returns the integer \<open>m\<close> that outcome denotes, a count
  that no other outcome exceeds, \<open>estimated_phase = m / 2^t\<close>,
  \<open>error = |estimated_phase - phase|\<close> and \<open>precision = 1 / 2^t\<close>. For \<open>phase = 0.25\<close>
  and \<open>t = 4\<close> the returned \<open>estimated_phase\<close> is 0.25 and the \<open>error\<close> is 0 exactly when
  the most frequent outcome denotes 4, the outcome \<open>0100\<close> of the exact inverse transform.
\<close>

theorem qpe_run_estimate:
  assumes "t \<le> 10" "0 \<le> phase" "phase < 1"
  shows "(\<forall>be cnts s c.
            be (qpe_circuit phase t) 2048 = Inr cnts \<and> max_count_key cnts = Inr (s, c)
            \<and> bitstring s \<longrightarrow>
            (\<exists>r m. qpe_run be phase t = Returns r \<and> int_base2 s = Inr m
               \<and> (s, c) \<in> set cnts \<and> (\<forall>(k, c') \<in> set cnts. c' \<le> c)
               \<and> qpe_measured_state r = s \<and> qpe_measured_int r = m
               \<and> qpe_estimated_phase r = real_of_int m / 2 powi t
               \<and> qpe_error r = \<bar>qpe_estimated_phase r - phase\<bar>
               \<and> qpe_precision r = 1 / 2 powi t))
       \<and> (\<forall>be cnts c.
            be (qpe_circuit (1 / 4) 4) 2048 = Inr cnts
            \<and> max_count_key cnts = Inr (''0100'', c) \<longrightarrow>
            (\<exists>r. qpe_run be (1 / 4) 4 = Returns r
               \<and> qpe_estimated_phase r = 1 / 4 \<and> qpe_error r = 0))
       \<and> (\<forall>be r. qpe_run be (1 / 4) 4 = Returns r \<longrightarrow>
            (qpe_estimated_phase r = 1 / 4 \<and> qpe_error r = 0 \<longleftrightarrow> qpe_measured_int r = 4))"
proof -
  have a: "\<exists>r m. qpe_run be phase t = Returns r \<and> int_base2 s = Inr m
               \<and> (s, c) \<in> set cnts \<and> (\<forall>(k, c') \<in> set cnts. c' \<le> c)
               \<and> qpe_measured_state r = s \<and> qpe_measured_int r = m
               \<and> qpe_estimated_phase r = real_of_int m / 2 powi t
               \<and> qpe_error r = \<bar>qpe_estimated_phase r - phase\<bar>
               \<and> qpe_precision r = 1 / 2 powi t"
    if be: "be (qpe_circuit phase t) 2048 = Inr cnts" and mk: "max_count_key cnts = Inr (s, c)"
      and bs: "bitstring s" for be cnts s c
  proof -
    from bs obtain m where m: "int_base2 s = Inr m" by (simp add: int_base2_def)
    show ?thesis
      using assms be mk m max_count_key_maximal[OF mk]
      by (simp add: qpe_run_def Let_def)
  qed
  have b: "\<exists>r. qpe_run be (1 / 4) 4 = Returns r
               \<and> qpe_estimated_phase r = 1 / 4 \<and> qpe_error r = 0"
    if "be (qpe_circuit (1 / 4) 4) 2048 = Inr cnts" "max_count_key cnts = Inr (''0100'', c)"
    for be cnts c
    using that by (simp add: qpe_run_def Let_def int_base2_0100)
  have c: "(qpe_estimated_phase r = 1 / 4 \<and> qpe_error r = 0 \<longleftrightarrow> qpe_measured_int r = 4)"
    if "qpe_run be (1 / 4) 4 = Returns r" for be r
    using that by (auto simp: qpe_run_def Let_def split: sum.splits prod.splits)
  from a b c show ?thesis by blast
qed

theorem qpe_run_estimate_witness:
  "(4::int) \<le> 10 \<and> (0::real) \<le> 1 / 4 \<and> (1 / 4 :: real) < 1
   \<and> max_count_key [(''0100'', 2048)] = Inr (''0100'', 2048)
   \<and> (\<exists>r. qpe_run (\<lambda>qc shots. Inr [(''0100'', 2048)]) (1 / 4) 4 = Returns r
          \<and> qpe_estimated_phase r = 1 / 4 \<and> qpe_error r = 0)"
proof -
  have mk: "max_count_key [(''0100'', 2048)] = Inr (''0100'', 2048)" by simp
  from qpe_run_estimate [of 4 "1 / 4"]
  have "\<forall>be cnts c.
            be (qpe_circuit (1 / 4) 4) 2048 = Inr cnts
            \<and> max_count_key cnts = Inr (''0100'', c) \<longrightarrow>
            (\<exists>r. qpe_run be (1 / 4) 4 = Returns r
               \<and> qpe_estimated_phase r = 1 / 4 \<and> qpe_error r = 0)"
    by simp
  from this[rule_format, of "\<lambda>qc shots. Inr [(''0100'', 2048)]" "[(''0100'', 2048)]" 2048] mk
  show ?thesis by simp
qed


section \<open>Properties of extremum search\<close>

lemma floor_log2_bounds:
  assumes "1 \<le> n"
  shows "2 ^ floor_log2 n \<le> n \<and> n < 2 ^ Suc (floor_log2 n)"
  using assms
proof (induction n rule: floor_log2.induct)
  case (1 n)
  show ?case
  proof (cases "n < 2")
    case True
    with "1.prems" have "n = 1" by simp
    then show ?thesis by (subst (1 2) floor_log2.simps) simp
  next
    case False
    then have "1 \<le> n div 2" by simp
    from "1.IH"[OF False this]
    have lo: "2 ^ floor_log2 (n div 2) \<le> n div 2" and hi: "n div 2 < 2 ^ Suc (floor_log2 (n div 2))"
      by simp_all
    have fl: "floor_log2 n = Suc (floor_log2 (n div 2))"
      using False by (subst floor_log2.simps) simp
    from lo have "2 * 2 ^ floor_log2 (n div 2) \<le> n" by linarith
    moreover from hi have "n < 2 * 2 ^ Suc (floor_log2 (n div 2))" by linarith
    ultimately show ?thesis unfolding fl by simp
  qed
qed

lemma ceil_log2_upper: "n \<le> 2 ^ ceil_log2 n"
proof (cases "n \<le> 1")
  case True
  then show ?thesis by (simp add: ceil_log2_def)
next
  case False
  then have "1 \<le> n - 1" by simp
  from floor_log2_bounds[OF this] have "n - 1 < 2 ^ Suc (floor_log2 (n - 1))" by simp
  with False show ?thesis by (simp add: ceil_log2_def)
qed

lemma ceil_log2_least:
  assumes "n \<le> 2 ^ k"
  shows "ceil_log2 n \<le> k"
proof (cases "n \<le> 1")
  case True
  then show ?thesis by (simp add: ceil_log2_def)
next
  case False
  then have "1 \<le> n - 1" by simp
  from floor_log2_bounds[OF this] have "2 ^ floor_log2 (n - 1) \<le> n - 1" by simp
  with assms False have "(2::nat) ^ floor_log2 (n - 1) < 2 ^ k" by linarith
  then have "floor_log2 (n - 1) < k" by (simp add: power_strict_increasing_iff)
  with False show ?thesis by (simp add: ceil_log2_def)
qed

lemma py_min_Min: "data \<noteq> [] \<Longrightarrow> py_min data = Min (set data)"
proof (cases data)
  case (Cons x xs)
  have "Min (set (x # xs)) = fold min xs x" by (rule Min.set_eq_fold)
  with Cons show ?thesis by (simp add: py_min_def)
qed simp

lemma py_max_Max: "data \<noteq> [] \<Longrightarrow> py_max data = Max (set data)"
proof (cases data)
  case (Cons x xs)
  have "Max (set (x # xs)) = fold max xs x" by (rule Max.set_eq_fold)
  with Cons show ?thesis by (simp add: py_max_def)
qed simp

lemma int_base2_nonneg:
  assumes "int_base2 s = Inr m"
  shows "0 \<le> m"
proof -
  have "0 \<le> foldl (\<lambda>acc c. 2 * acc + (if c = CHR ''1'' then 1 else 0)) a s" if "0 \<le> a" for a :: int
    using that by (induction s arbitrary: a) auto
  from this[of 0] assms show ?thesis
    by (auto simp: int_base2_def split: if_splits)
qed

lemma power_of_2_facts:
  "length xs \<le> power_of_2 (length xs)"
  "length xs \<le> 2 ^ k \<Longrightarrow> power_of_2 (length xs) \<le> 2 ^ k"
  "floor_log2 (power_of_2 n) = ceil_log2 n"
  by (simp_all add: power_of_2_def ceil_log2_upper ceil_log2_least floor_log2_pow2)

lemma power_of_2_limit: "power_of_2 n \<le> 2 ^ 10 \<longleftrightarrow> ceil_log2 n \<le> 10"
  unfolding power_of_2_def by (rule power_increasing_iff) simp

lemma padded_data_eq:
  "padded_data data find_min =
     map Value data @ replicate (power_of_2 (length data) - length data)
                        (if find_min then PosInf else NegInf)"
  by (simp add: padded_data_def)

lemma min_max_run_valid:
  fixes data :: "'a::linorder list" and find_min :: bool
  assumes "data \<noteq> []" "ceil_log2 (length data) \<le> 10"
  defines "tv \<equiv> (if find_min then Min (set data) else Max (set data))"
  defines "ti \<equiv> filter (\<lambda>i. data ! i = tv) [0..<length data]"
  defines "qc \<equiv> min_max_circuit ti (int (ceil_log2 (length data)))
                  (optimal_iterations (int (power_of_2 (length data))) (length ti))"
  shows "tv \<in> set data" "ti \<noteq> []"
    "min_max_run be data find_min =
      (case be qc 1000 of
         Inl e \<Rightarrow> Raises e
       | Inr cnts \<Rightarrow>
           (case max_count_key cnts of
              Inl e \<Rightarrow> Raises e
            | Inr (max_count_state, max_count) \<Rightarrow>
                (case int_base2 max_count_state of
                   Inl e \<Rightarrow> Raises e
                 | Inr found_index \<Rightarrow>
                     Returns \<lparr>qmm_data = data, qmm_find_min = find_min,
                        qmm_target_value = tv,
                        qmm_target_indices = ti,
                        qmm_found_index = found_index,
                        qmm_found_value =
                          (if found_index < int (length data)
                           then Some (data ! nat found_index) else None),
                        qmm_success =
                          (found_index < int (length data) \<and> data ! nat found_index = tv),
                        qmm_success_rate =
                          real (sum_list (map (\<lambda>idx. counts_get cnts
                                 (format_binary (int idx) (int (ceil_log2 (length data))))) ti))
                          / 1000,
                        qmm_iterations =
                          optimal_iterations (int (power_of_2 (length data))) (length ti),
                        qmm_measurements = cnts\<rparr>)))"
proof -
  from assms(1) have fin: "finite (set data)" "set data \<noteq> {}" by simp_all
  show tvin: "tv \<in> set data"
    unfolding tv_def using Min_in[OF fin] Max_in[OF fin] by simp
  then obtain i where "i < length data" "data ! i = tv"
    by (auto simp: in_set_conv_nth)
  then have "i \<in> set ti" by (simp add: ti_def)
  then show tine: "ti \<noteq> []" by auto
  have tv': "(if find_min then py_min data else py_max data) = tv"
    using assms(1) by (simp add: tv_def py_min_Min py_max_Max)
  show "min_max_run be data find_min = (case be qc 1000 of
         Inl e \<Rightarrow> Raises e
       | Inr cnts \<Rightarrow>
           (case max_count_key cnts of
              Inl e \<Rightarrow> Raises e
            | Inr (max_count_state, max_count) \<Rightarrow>
                (case int_base2 max_count_state of
                   Inl e \<Rightarrow> Raises e
                 | Inr found_index \<Rightarrow>
                     Returns \<lparr>qmm_data = data, qmm_find_min = find_min,
                        qmm_target_value = tv,
                        qmm_target_indices = ti,
                        qmm_found_index = found_index,
                        qmm_found_value =
                          (if found_index < int (length data)
                           then Some (data ! nat found_index) else None),
                        qmm_success =
                          (found_index < int (length data) \<and> data ! nat found_index = tv),
                        qmm_success_rate =
                          real (sum_list (map (\<lambda>idx. counts_get cnts
                                 (format_binary (int idx) (int (ceil_log2 (length data))))) ti))
                          / 1000,
                        qmm_iterations =
                          optimal_iterations (int (power_of_2 (length data))) (length ti),
                        qmm_measurements = cnts\<rparr>)))"
    using assms(1,2) tine
    unfolding min_max_run_def tv' Let_def power_of_2_facts(3) ti_def[symmetric] qc_def[symmetric]
    by (auto split: sum.splits prod.splits)
qed

lemma min_max_run_any_backend:
  fixes data :: "'a::linorder list"
  assumes "data \<noteq> []" "power_of_2 (length data) \<le> 2 ^ 10"
  shows "let tv = (if find_min then Min (set data) else Max (set data));
             ti = filter (\<lambda>i. data ! i = tv) [0..<length data];
             p = power_of_2 (length data)
         in (\<exists>k. p = 2 ^ k \<and> k \<le> 10) \<and> length data \<le> p
            \<and> (\<forall>k. length data \<le> 2 ^ k \<longrightarrow> p \<le> 2 ^ k)
            \<and> padded_data data find_min =
                 map Value data @ replicate (p - length data) (if find_min then PosInf else NegInf)
            \<and> length (padded_data data find_min) = p
            \<and> tv \<in> set data
            \<and> set ti = {i. i < length data \<and> data ! i = tv}
            \<and> (\<forall>be r. min_max_run be data find_min = Returns r \<longrightarrow>
                  qmm_target_value r = tv \<and> qmm_target_indices r = ti
                  \<and> (qmm_success r \<longleftrightarrow>
                       0 \<le> qmm_found_index r \<and> qmm_found_index r < int (length data)
                       \<and> data ! nat (qmm_found_index r) = tv))
            \<and> (\<forall>be msg. min_max_run be data find_min \<noteq> ErrorDict msg)
            \<and> (\<forall>be cnts s c.
                  be (min_max_circuit ti (int (ceil_log2 (length data)))
                        (optimal_iterations (int p) (length ti))) 1000 = Inr cnts
                  \<and> max_count_key cnts = Inr (s, c) \<and> bitstring s \<longrightarrow>
                  (\<exists>r. min_max_run be data find_min = Returns r
                     \<and> int_base2 s = Inr (qmm_found_index r)
                     \<and> (s, c) \<in> set cnts \<and> (\<forall>(k, c') \<in> set cnts. c' \<le> c)))"
proof -
  define tv where "tv = (if find_min then Min (set data) else Max (set data))"
  define ti where "ti = filter (\<lambda>i. data ! i = tv) [0..<length data]"
  define p where "p = power_of_2 (length data)"
  from assms(2) have cl: "ceil_log2 (length data) \<le> 10"
    using power_of_2_limit by blast
  note valid = min_max_run_valid[OF assms(1) cl, where find_min = find_min, folded tv_def, folded ti_def,
      folded p_def]
  have p1: "\<exists>k. p = 2 ^ k \<and> k \<le> 10"
    using cl by (auto simp: p_def power_of_2_def)
  have p2: "length data \<le> p" by (simp add: p_def power_of_2_facts)
  have p3: "\<forall>k. length data \<le> 2 ^ k \<longrightarrow> p \<le> 2 ^ k" by (simp add: p_def power_of_2_facts)
  have p4: "padded_data data find_min =
                 map Value data @ replicate (p - length data) (if find_min then PosInf else NegInf)"
    by (simp add: padded_data_eq p_def)
  have p5: "length (padded_data data find_min) = p"
    unfolding p4 using p2 by simp
  have t1: "tv \<in> set data" by (rule valid(1))
  have t2: "set ti = {i. i < length data \<and> data ! i = tv}" by (auto simp: ti_def)
  have r1: "qmm_target_value r = tv \<and> qmm_target_indices r = ti
                  \<and> (qmm_success r \<longleftrightarrow>
                       0 \<le> qmm_found_index r \<and> qmm_found_index r < int (length data)
                       \<and> data ! nat (qmm_found_index r) = tv)"
    if "min_max_run be data find_min = Returns r" for be r
    using that unfolding valid(3)
    by (auto split: sum.splits prod.splits dest: int_base2_nonneg)
  have r2: "min_max_run be data find_min \<noteq> ErrorDict msg" for be msg
    unfolding valid(3) by (auto split: sum.splits prod.splits)
  have r3: "\<exists>r. min_max_run be data find_min = Returns r
                     \<and> int_base2 s = Inr (qmm_found_index r)
                     \<and> (s, c) \<in> set cnts \<and> (\<forall>(k, c') \<in> set cnts. c' \<le> c)"
    if be: "be (min_max_circuit ti (int (ceil_log2 (length data)))
                        (optimal_iterations (int p) (length ti))) 1000 = Inr cnts"
      and mk: "max_count_key cnts = Inr (s, c)" and bs: "bitstring s" for be cnts s c
  proof -
    from bs obtain m where m: "int_base2 s = Inr m" by (simp add: int_base2_def)
    show ?thesis
      unfolding valid(3) using be mk m max_count_key_maximal[OF mk] by simp
  qed
  from p1 p2 p3 p4 p5 t1 t2 r1 r2 r3 show ?thesis
    unfolding Let_def tv_def[symmetric] ti_def[symmetric] p_def[symmetric] by blast
qed

lemma min_max_circuit_valid:
  assumes "\<forall>i \<in> set target_indices. i < 2 ^ k" "0 < k"
  shows "circuit_error (min_max_circuit target_indices (int k) its) = None"
proof -
  have k: "1 \<le> int k" using assms(2) by simp
  note a = all_gates_valid[OF k]
  have d: "list_all (\<lambda>g. gate_error (int k) (int k) g = None) (min_max_diffusion (int k))"
    using a multi_controlled_z_valid[OF k, of "int k"] by (simp add: min_max_diffusion_def)
  have "list_all (\<lambda>g. gate_error (int k) (int k) g = None)
          (x_on_zero_bits (format_binary (int i) (int k)))"
    if "i \<in> set target_indices" for i
  proof -
    from that assms(1) have "i < 2 ^ k" by blast
    from length_format_binary[OF this assms(2)]
    show ?thesis by (intro x_on_zero_bits_valid) simp
  qed
  then have o: "list_all (\<lambda>g. gate_error (int k) (int k) g = None)
                  (min_max_oracle target_indices (int k))"
    using multi_controlled_z_valid[OF k, of "int k"]
    by (auto simp: min_max_oracle_def list_all_iff Let_def)
  show ?thesis
    by (rule circuit_error_NoneI)
      (use a d o in \<open>auto simp: min_max_circuit_def list_all_iff\<close>)
qed

lemma max_count_key_bitstring:
  assumes "cnts \<noteq> []" "list_all (\<lambda>(bits, c). bitstring bits) cnts"
  shows "\<exists>s c. max_count_key cnts = Inr (s, c) \<and> bitstring s"
proof -
  from assms(1) obtain s c where mk: "max_count_key cnts = Inr (s, c)"
    by (cases cnts) (auto intro: prod.exhaust)
  from max_count_key_maximal[OF mk] assms(2) have "bitstring s"
    by (auto simp: list_all_iff)
  with mk show ?thesis by blast
qed

lemma ceil_log2_pos: "2 \<le> n \<Longrightarrow> 0 < ceil_log2 n"
  by (simp add: ceil_log2_def)

lemma min_max_run_on_simulator:
  fixes data :: "'a::linorder list"
  assumes "2 \<le> length data" "power_of_2 (length data) \<le> 2 ^ 10"
  shows "\<exists>r s c. min_max_run (aer_backend rnd) data find_min = Returns r
           \<and> qmm_target_value r = (if find_min then Min (set data) else Max (set data))
           \<and> set (qmm_target_indices r) = {i. i < length data \<and> data ! i = qmm_target_value r}
           \<and> (qmm_success r \<longleftrightarrow>
                0 \<le> qmm_found_index r \<and> qmm_found_index r < int (length data)
                \<and> data ! nat (qmm_found_index r) = qmm_target_value r)
           \<and> int_base2 s = Inr (qmm_found_index r)
           \<and> (s, c) \<in> set (qmm_measurements r)
           \<and> (\<forall>(k, c') \<in> set (qmm_measurements r). c' \<le> c)"
proof -
  define tv where "tv = (if find_min then Min (set data) else Max (set data))"
  define ti where "ti = filter (\<lambda>i. data ! i = tv) [0..<length data]"
  define k where "k = ceil_log2 (length data)"
  define qc where "qc = min_max_circuit ti (int k)
      (optimal_iterations (int (power_of_2 (length data))) (length ti))"
  from assms(1) have ne: "data \<noteq> []" by auto
  from assms(2) have cl: "ceil_log2 (length data) \<le> 10"
    using power_of_2_limit by blast
  note valid = min_max_run_valid[OF ne cl, where find_min = find_min, folded tv_def,
      folded ti_def, folded k_def, folded qc_def]
  have kpos: "0 < k" using assms(1) by (simp add: k_def ceil_log2_pos)
  have "length data \<le> 2 ^ k" by (simp add: k_def ceil_log2_upper)
  then have "\<forall>i \<in> set ti. i < 2 ^ k" by (auto simp: ti_def)
  from min_max_circuit_valid[OF this kpos] have "circuit_error qc = None" by (simp add: qc_def)
  from aer_backend_valid[OF this, of rnd 1000] obtain cnts where
    cnts: "aer_backend rnd qc 1000 = Inr cnts"
    and bs: "list_all (\<lambda>(bits, c). bitstring bits) cnts" and cne: "cnts \<noteq> []" by auto
  from max_count_key_bitstring[OF cne bs] obtain s c where
    mk: "max_count_key cnts = Inr (s, c)" and s: "bitstring s" by blast
  from s obtain m where m: "int_base2 s = Inr m" by (simp add: int_base2_def)
  have t2: "set ti = {i. i < length data \<and> data ! i = tv}" by (auto simp: ti_def)
  have "\<exists>r. min_max_run (aer_backend rnd) data find_min = Returns r
           \<and> qmm_target_value r = tv \<and> qmm_target_indices r = ti
           \<and> qmm_found_index r = m \<and> qmm_measurements r = cnts
           \<and> (qmm_success r \<longleftrightarrow> m < int (length data) \<and> data ! nat m = tv)"
    unfolding valid(3) using cnts mk m by simp
  then obtain r where r: "min_max_run (aer_backend rnd) data find_min = Returns r"
    "qmm_target_value r = tv" "qmm_target_indices r = ti"
    "qmm_found_index r = m" "qmm_measurements r = cnts"
    "qmm_success r \<longleftrightarrow> m < int (length data) \<and> data ! nat m = tv"
    by blast
  show ?thesis
    unfolding tv_def[symmetric]
    using r m max_count_key_maximal[OF mk] int_base2_nonneg[OF m] t2
    by (intro exI[of _ r] exI[of _ s] exI[of _ c]) simp
qed

text \<open>
  C6. The claim is about every non-empty data list. For a list of one element the padded
  length is 1, the register has no qubit, and the first gate of the circuit is refused by
  the library: \<open>QuantumMinMaxAlgorithm.run\<close> raises \<open>CircuitError\<close> and sets no
  \<open>target_value\<close>, \<open>target_indices\<close> or \<open>success\<close>. For every list of two or more
  elements whose padded length is at most \<open>2^10\<close> the run on the simulator returns a
  result, for every random source, with the minimum (respectively maximum) of the data as
  \<open>target_value\<close>, exactly the positions holding it as \<open>target_indices\<close>, \<open>success\<close> true
  exactly when \<open>found_index\<close> is a valid index whose entry is \<open>target_value\<close>, and the
  integer of a most frequent outcome as \<open>found_index\<close>; the padded list is the data
  followed by the sentinels of the mode, up to the least power of two not below the
  length of the data.
\<close>

theorem min_max_run_single_element:
  fixes x :: "'a::linorder" and data :: "'a list"
  shows "(\<forall>rnd find_min. min_max_run (aer_backend rnd) [x] find_min = Raises CircuitError)
       \<and> (2 \<le> length data \<and> power_of_2 (length data) \<le> 2 ^ 10 \<longrightarrow>
            (\<forall>rnd find_min. \<exists>r s c.
               min_max_run (aer_backend rnd) data find_min = Returns r
               \<and> qmm_target_value r = (if find_min then Min (set data) else Max (set data))
               \<and> set (qmm_target_indices r) =
                   {i. i < length data \<and> data ! i = qmm_target_value r}
               \<and> (qmm_success r \<longleftrightarrow>
                    0 \<le> qmm_found_index r \<and> qmm_found_index r < int (length data)
                    \<and> data ! nat (qmm_found_index r) = qmm_target_value r)
               \<and> int_base2 s = Inr (qmm_found_index r)
               \<and> (s, c) \<in> set (qmm_measurements r)
               \<and> (\<forall>(k, c') \<in> set (qmm_measurements r). c' \<le> c))
            \<and> (\<forall>find_min.
                 padded_data data find_min =
                   map Value data @ replicate (power_of_2 (length data) - length data)
                                      (if find_min then PosInf else NegInf)
                 \<and> length (padded_data data find_min) = power_of_2 (length data)
                 \<and> (\<exists>k. power_of_2 (length data) = 2 ^ k)
                 \<and> length data \<le> power_of_2 (length data)
                 \<and> (\<forall>k. length data \<le> 2 ^ k \<longrightarrow> power_of_2 (length data) \<le> 2 ^ k)))"
proof -
  have a: "min_max_run (aer_backend rnd) [x] find_min = Raises CircuitError" for rnd find_min
  proof -
    have c': "ceil_log2 (Suc 0) = 0" by (simp add: ceil_log2_def)
    have p': "power_of_2 (Suc 0) = Suc 0" by (simp add: power_of_2_def c')
    have c: "ceil_log2 (length [x]) = 0" by (simp add: c')
    have p: "power_of_2 (length [x]) = 1" by (simp add: p')
    have tv: "(if find_min then Min (set [x]) else Max (set [x])) = x" by simp
    have ti: "filter (\<lambda>i. [x] ! i = x) [0..<length [x]] = [0]" by simp
    have e: "circuit_error (min_max_circuit [0] 0 0) = Some CircuitError"
      by (simp add: circuit_error_def min_max_circuit_def)
    have b: "aer_backend rnd (min_max_circuit [0] 0 0) 1000 = Inl CircuitError"
      unfolding aer_backend_def e by simp
    have "ceil_log2 (length [x]) \<le> 10" unfolding c by simp
    from min_max_run_valid(3)[OF _ this, where find_min = find_min and be = "aer_backend rnd"]
    show ?thesis
      unfolding tv ti c p using optimal_iterations_1_1 b by (simp add: c' p')
  qed
  have b: "\<exists>r s c. min_max_run (aer_backend rnd) data find_min = Returns r
               \<and> qmm_target_value r = (if find_min then Min (set data) else Max (set data))
               \<and> set (qmm_target_indices r) =
                   {i. i < length data \<and> data ! i = qmm_target_value r}
               \<and> (qmm_success r \<longleftrightarrow>
                    0 \<le> qmm_found_index r \<and> qmm_found_index r < int (length data)
                    \<and> data ! nat (qmm_found_index r) = qmm_target_value r)
               \<and> int_base2 s = Inr (qmm_found_index r)
               \<and> (s, c) \<in> set (qmm_measurements r)
               \<and> (\<forall>(k, c') \<in> set (qmm_measurements r). c' \<le> c)"
    if "2 \<le> length data" "power_of_2 (length data) \<le> 2 ^ 10" for rnd find_min
    using min_max_run_on_simulator[OF that] .
  have c: "padded_data data find_min =
                   map Value data @ replicate (power_of_2 (length data) - length data)
                                      (if find_min then PosInf else NegInf)
                 \<and> length (padded_data data find_min) = power_of_2 (length data)
                 \<and> (\<exists>k. power_of_2 (length data) = 2 ^ k)
                 \<and> length data \<le> power_of_2 (length data)
                 \<and> (\<forall>k. length data \<le> 2 ^ k \<longrightarrow> power_of_2 (length data) \<le> 2 ^ k)"
    for find_min
    using power_of_2_facts(1)[of data] power_of_2_facts(2)[of data]
    by (auto simp: padded_data_eq power_of_2_def)
  from a b c show ?thesis by blast
qed

theorem min_max_run_single_element_witness:
  "(\<forall>rnd. min_max_run (aer_backend rnd) [5::int] True = Raises CircuitError)
   \<and> 2 \<le> length [7, 3, 9, 1, 5, 8, 2, 6 :: int]
   \<and> power_of_2 (length [7, 3, 9, 1, 5, 8, 2, 6 :: int]) \<le> 2 ^ 10
   \<and> (\<forall>rnd. \<exists>r. min_max_run (aer_backend rnd) [7, 3, 9, 1, 5, 8, 2, 6 :: int] True = Returns r
          \<and> qmm_target_value r = 1 \<and> qmm_target_indices r = [3]
          \<and> (qmm_success r \<longleftrightarrow> qmm_found_index r = 3))"
proof -
  let ?d = "[7, 3, 9, 1, 5, 8, 2, 6 :: int]"
  have l: "2 \<le> length ?d" by simp
  have p: "power_of_2 (length ?d) = 8" by code_simp
  have le: "power_of_2 (length ?d) \<le> 2 ^ 10" unfolding p by simp
  have tv: "Min (set ?d) = 1" by simp
  note t = min_max_run_single_element [of 5 ?d]
  from t have a: "\<forall>rnd. min_max_run (aer_backend rnd) [5::int] True = Raises CircuitError"
    by blast
  have b: "\<exists>r. min_max_run (aer_backend rnd) ?d True = Returns r
          \<and> qmm_target_value r = 1 \<and> qmm_target_indices r = [3]
          \<and> (qmm_success r \<longleftrightarrow> qmm_found_index r = 3)" for rnd
  proof -
    from t l le obtain r s c where r: "min_max_run (aer_backend rnd) ?d True = Returns r"
      and v: "qmm_target_value r = (if True then Min (set ?d) else Max (set ?d))"
      and i: "set (qmm_target_indices r) = {i. i < length ?d \<and> ?d ! i = qmm_target_value r}"
      and su: "qmm_success r \<longleftrightarrow>
                    0 \<le> qmm_found_index r \<and> qmm_found_index r < int (length ?d)
                    \<and> ?d ! nat (qmm_found_index r) = qmm_target_value r"
      by blast
    from v tv have v1: "qmm_target_value r = 1" by simp
    from min_max_run_any_backend[OF _ le, of True, unfolded Let_def] r
    have "qmm_target_indices r = filter (\<lambda>i. ?d ! i = (if True then Min (set ?d) else Max (set ?d)))
            [0..<length ?d]"
      by blast
    also have "\<dots> = [3]" by code_simp
    finally have i1: "qmm_target_indices r = [3]" .
    have "(0 \<le> j \<and> j < int (length ?d) \<and> ?d ! nat j = 1) \<longleftrightarrow> j = 3" for j :: int
    proof
      assume h: "0 \<le> j \<and> j < int (length ?d) \<and> ?d ! nat j = 1"
      then have "nat j < 8" by (simp add: nat_less_iff)
      then have "nat j \<in> {0, 1, 2, 3, 4, 5, 6, 7}" by auto
      with h have "nat j = 3" by auto
      with h show "j = 3" by simp
    next
      assume "j = 3"
      then show "0 \<le> j \<and> j < int (length ?d) \<and> ?d ! nat j = 1" by simp
    qed
    with su v1 have "qmm_success r \<longleftrightarrow> qmm_found_index r = 3" by simp
    with r v1 i1 show ?thesis by blast
  qed
  from a b l le show ?thesis by blast
qed


end
